theory Spec2Isabelle
  imports Main
begin

unbundle bit_operations_syntax

section \<open>The Python runtime the module is written against\<close>

text \<open>
  The module \<^verbatim>\<open>slipcover/bytecode.py\<close> reads its opcode numbers, the jump tables, the
  inline-cache table and the stack-effect function from the interpreter's \<^verbatim>\<open>dis\<close>
  module, and branches on \<^verbatim>\<open>PYTHON_VERSION\<close>. None of that is code of the module, so
  all of it is a parameter of the model: one record, passed to every function that
  reads it. The last field is the interpreter's validation in \<^verbatim>\<open>code.replace\<close>, which
  \<^verbatim>\<open>finish\<close> ends with: the exception it raises, if any, for the new instruction bytes
  and the new stack size.
\<close>

datatype error = AssertionError | IndexError | ValueError | TypeError | OverflowError

record py_env =
  PYTHON_VERSION :: "nat \<times> nat"
  op_EXTENDED_ARG :: int
  op_EXTENDED_ARG_QUICK :: int
  op_LOAD_CONST :: int
  op_LOAD_GLOBAL :: int
  op_PUSH_NULL :: int
  op_PRECALL :: int
  op_CALL :: int
  op_CACHE :: int
  op_CALL_FUNCTION :: int
  op_POP_TOP :: int
  op_NOP :: int
  hasjrel :: "int list"
  hasjabs :: "int list"
  opname_JUMP_BACKWARD :: "int \<Rightarrow> bool"
  inline_cache_entries :: "int \<Rightarrow> nat"
  stack_effect :: "int \<Rightarrow> int option \<Rightarrow> int option"
  HAVE_ARGUMENT :: int
  code_replace_check :: "int list \<Rightarrow> int \<Rightarrow> error option"

text \<open>Python compares version tuples lexicographically.\<close>

definition version_ge :: "py_env \<Rightarrow> nat \<times> nat \<Rightarrow> bool" where
  "version_ge env v = (fst v < fst (PYTHON_VERSION env)
     \<or> (fst v = fst (PYTHON_VERSION env) \<and> snd v \<le> snd (PYTHON_VERSION env)))"

section \<open>Branch operands and their unit\<close>

definition offset2branch :: "py_env \<Rightarrow> int \<Rightarrow> error + int" where
  "offset2branch env offset =
     (if version_ge env (3, 10)
      then (if offset mod 2 = 0 then Inr (offset div 2) else Inl AssertionError)
      else Inr offset)"

definition branch2offset :: "py_env \<Rightarrow> int \<Rightarrow> int" where
  "branch2offset env arg = (if version_ge env (3, 10) then arg * 2 else arg)"

text \<open>\<^verbatim>\<open>is_EXTENDED_ARG\<close>: the list of opcodes read as an operand prefix.\<close>

definition is_EXTENDED_ARG :: "py_env \<Rightarrow> int list" where
  "is_EXTENDED_ARG env =
     (if version_ge env (3, 11) then [op_EXTENDED_ARG env, op_EXTENDED_ARG_QUICK env]
      else [op_EXTENDED_ARG env])"

text \<open>
  \<^verbatim>\<open>int.bit_length()\<close>: the number of bits of the absolute value, 0 for 0.
\<close>

fun bit_length_nat :: "nat \<Rightarrow> nat" where
  "bit_length_nat n = (if n = 0 then 0 else Suc (bit_length_nat (n div 2)))"

declare bit_length_nat.simps [simp del]

definition bit_length :: "int \<Rightarrow> int" where
  "bit_length n = int (bit_length_nat (nat \<bar>n\<bar>))"

text \<open>Python's \<^verbatim>\<open>//\<close> rounds to minus infinity, as \<open>div\<close> on \<open>int\<close> does.\<close>

definition arg_ext_needed :: "int \<Rightarrow> int" where
  "arg_ext_needed arg = (bit_length arg - 1) div 8"

section \<open>The three side tables' entries\<close>

record Branch =
  b_offset :: int
  b_length :: int
  b_opcode :: int
  b_is_relative :: bool
  b_is_backward :: bool
  b_target :: int

record ExceptionTableEntry =
  e_start :: int
  e_end :: int
  e_target :: int
  e_other :: int

record LineEntry =
  l_start :: int
  l_end :: int
  l_number :: "int option"

definition Branch_adjust :: "Branch \<Rightarrow> int \<Rightarrow> int \<Rightarrow> Branch" where
  "Branch_adjust b insert_offset insert_length =
     (let b1 = (if b_offset b \<ge> insert_offset
                then b\<lparr>b_offset := b_offset b + insert_length\<rparr> else b)
      in (if b_target b1 > insert_offset
          then b1\<lparr>b_target := b_target b1 + insert_length\<rparr> else b1))"

definition ExceptionTableEntry_adjust ::
  "ExceptionTableEntry \<Rightarrow> int \<Rightarrow> int \<Rightarrow> ExceptionTableEntry" where
  "ExceptionTableEntry_adjust e insert_offset insert_length =
     (let e1 = (if insert_offset \<le> e_start e
                then e\<lparr>e_start := e_start e + insert_length\<rparr> else e);
          e2 = (if insert_offset < e_end e1
                then e1\<lparr>e_end := e_end e1 + insert_length\<rparr> else e1)
      in (if insert_offset < e_target e2
          then e2\<lparr>e_target := e_target e2 + insert_length\<rparr> else e2))"

definition LineEntry_adjust :: "LineEntry \<Rightarrow> int \<Rightarrow> int \<Rightarrow> LineEntry" where
  "LineEntry_adjust l insert_offset insert_length =
     (let l1 = (if l_start l > insert_offset
                then l\<lparr>l_start := l_start l + insert_length\<rparr> else l)
      in (if l_end l1 > insert_offset
          then l1\<lparr>l_end := l_end l1 + insert_length\<rparr> else l1))"

section \<open>Errors in sequence\<close>

text \<open>The first exception raised ends the computation.\<close>

definition bindE :: "error + 'a \<Rightarrow> ('a \<Rightarrow> error + 'b) \<Rightarrow> error + 'b" where
  "bindE m f = (case m of Inl e \<Rightarrow> Inl e | Inr x \<Rightarrow> f x)"

section \<open>Byte buffers\<close>

text \<open>
  A \<^verbatim>\<open>bytes\<close> or \<^verbatim>\<open>bytearray\<close> holds integers of \<open>0..255\<close>; storing any other integer
  raises \<^verbatim>\<open>ValueError\<close>. The buffers are lists of integers here and every store checks
  the range, as the interpreter does.
\<close>

definition is_byte :: "int \<Rightarrow> bool" where
  "is_byte x = (0 \<le> x \<and> x < 256)"

definition bytes :: "int list \<Rightarrow> error + int list" where
  "bytes xs = (if list_all is_byte xs then Inr xs else Inl ValueError)"

text \<open>\<^verbatim>\<open>bytearray.extend\<close>.\<close>

definition bytearray_extend :: "int list \<Rightarrow> int list \<Rightarrow> error + int list" where
  "bytearray_extend data xs = (if list_all is_byte xs then Inr (data @ xs) else Inl ValueError)"

text \<open>
  A slice bound of a sequence of length \<open>n\<close>: a negative bound counts from the end, and
  both ends are clamped to the sequence.
\<close>

definition slice_index :: "nat \<Rightarrow> int \<Rightarrow> nat" where
  "slice_index n i = (if i < 0 then nat (max 0 (i + int n)) else min (nat i) n)"

text \<open>\<^verbatim>\<open>xs[i:j] = ys\<close> on a bytearray.\<close>

definition set_slice :: "int list \<Rightarrow> int \<Rightarrow> int \<Rightarrow> int list \<Rightarrow> error + int list" where
  "set_slice xs i j ys =
     (let lo = slice_index (length xs) i;
          hi = max lo (slice_index (length xs) j)
      in if list_all is_byte ys then Inr (take lo xs @ ys @ drop hi xs)
         else Inl ValueError)"

text \<open>
  The place an index names in a sequence of length \<open>len\<close>: \<open>-len .. -1\<close> count from
  the end, \<open>0 .. len - 1\<close> from the start, and anything else is out of range.
\<close>

definition item_index :: "nat \<Rightarrow> int \<Rightarrow> nat option" where
  "item_index len i =
     (if - int len \<le> i \<and> i < 0 then Some (nat (i + int len))
      else if 0 \<le> i \<and> i < int len then Some (nat i)
      else None)"

text \<open>\<^verbatim>\<open>xs[i]\<close>.\<close>

definition get_item :: "int list \<Rightarrow> int \<Rightarrow> error + int" where
  "get_item xs i =
     (case item_index (length xs) i of
        None \<Rightarrow> Inl IndexError
      | Some k \<Rightarrow> Inr (xs ! k))"

text \<open>\<^verbatim>\<open>xs[i] = v\<close> on a bytearray: the index is checked before the value.\<close>

definition set_item :: "int list \<Rightarrow> int \<Rightarrow> int \<Rightarrow> error + int list" where
  "set_item xs i v =
     (case item_index (length xs) i of
        None \<Rightarrow> Inl IndexError
      | Some k \<Rightarrow> (if is_byte v then Inr (xs[k := v]) else Inl ValueError))"

section \<open>Instructions: encoding and decoding\<close>

text \<open>
  \<^verbatim>\<open>opcode_arg(opcode, arg, min_ext)\<close>; \<^verbatim>\<open>range(ext)\<close> is \<open>[0..ext - 1]\<close>, empty when
  \<open>ext \<le> 0\<close>. The shift \<^verbatim>\<open>arg >> (ext - i) * 8\<close> is by \<open>(ext - i) * 8\<close>.
\<close>

definition opcode_arg :: "py_env \<Rightarrow> int \<Rightarrow> int \<Rightarrow> int \<Rightarrow> error + int list" where
  "opcode_arg env opcode arg min_ext' =
     (let ext = max (arg_ext_needed arg) min_ext'
      in if ext \<le> 3
         then Inr (concat (map (\<lambda>i. [op_EXTENDED_ARG env,
                                      drop_bit (nat ((ext - i) * 8)) arg AND 0xFF])
                               [0..ext - 1])
                   @ [opcode, arg AND 0xFF]
                   @ (if version_ge env (3, 11)
                      then concat (replicate (inline_cache_entries env opcode)
                                     [op_CACHE env, 0])
                      else []))
         else Inl AssertionError)"

type_synonym oparg = "int \<times> int \<times> int \<times> int"

text \<open>
  The inner loop of \<^verbatim>\<open>unpack_opargs\<close> on Python 3.11: step over the cache words that
  follow an instruction.
\<close>

function skip_CACHE :: "py_env \<Rightarrow> int list \<Rightarrow> nat \<Rightarrow> nat" where
  "skip_CACHE env code off =
     (if off + 2 < length code \<and> code ! (off + 2) = op_CACHE env
      then skip_CACHE env code (off + 2) else off)"
  by pat_completeness auto
termination
  by (relation "measure (\<lambda>(env, code, off). length code - off)") auto

declare skip_CACHE.simps [simp del]

lemma skip_CACHE_ge: "off \<le> skip_CACHE env code off"
proof (induction env code off rule: skip_CACHE.induct)
  case (1 env code off)
  show ?case
  proof (cases "off + 2 < length code \<and> code ! (off + 2) = op_CACHE env")
    case True
    with 1 have "off + 2 \<le> skip_CACHE env code (off + 2)" by simp
    moreover from True have "skip_CACHE env code off = skip_CACHE env code (off + 2)"
      by (subst skip_CACHE.simps) simp
    ultimately show ?thesis by simp
  next
    case False
    then have "skip_CACHE env code off = off" by (subst skip_CACHE.simps) auto
    then show ?thesis by simp
  qed
qed

text \<open>
  \<^verbatim>\<open>unpack_opargs\<close> is a generator: it yields instructions until the buffer ends, or
  until \<^verbatim>\<open>code[off+1]\<close> reads past the end of a buffer of odd length. The model returns
  what was yielded and the exception that ended the generator, if any, so that a
  consumer sees the instructions before the failure, as in Python.
\<close>

function unpack_opargs_loop ::
  "py_env \<Rightarrow> int list \<Rightarrow> int \<Rightarrow> nat \<Rightarrow> nat \<Rightarrow> oparg list \<times> error option" where
  "unpack_opargs_loop env code ext_arg next_off off =
     (if off < length code
      then (if off + 1 < length code
            then (if code ! off \<in> set (is_EXTENDED_ARG env)
                  then unpack_opargs_loop env code
                         (push_bit 8 (ext_arg OR code ! (off + 1))) next_off (off + 2)
                  else (let arg = ext_arg OR code ! (off + 1);
                            off' = (if version_ge env (3, 11)
                                    then skip_CACHE env code off else off);
                            r = unpack_opargs_loop env code 0 (off' + 2) (off' + 2)
                        in ((int next_off, int (off' + 2) - int next_off, code ! off, arg)
                              # fst r, snd r)))
            else ([], Some IndexError))
      else ([], None))"
  by pat_completeness auto
termination
proof (relation "measure (\<lambda>(env, code, ext_arg, next_off, off). length code - off)",
       goal_cases)
  case 1
  show ?case by simp
next
  case (2 env code ext_arg next_off off)
  then show ?case by simp
next
  case (3 env code ext_arg next_off off x xa)
  have "off \<le> skip_CACHE env code off" by (rule skip_CACHE_ge)
  with 3 show ?case by (auto split: if_splits)
qed

declare unpack_opargs_loop.simps [simp del]

definition unpack_opargs :: "py_env \<Rightarrow> int list \<Rightarrow> oparg list \<times> error option" where
  "unpack_opargs env code = unpack_opargs_loop env code 0 0 0"

text \<open>
  \<^verbatim>\<open>calc_max_stack\<close>: \<^verbatim>\<open>dis.stack_effect\<close> raises \<^verbatim>\<open>ValueError\<close> on an opcode or an
  operand it does not accept (\<open>None\<close> in the environment).
\<close>

fun calc_max_stack_loop ::
  "py_env \<Rightarrow> oparg list \<Rightarrow> error option \<Rightarrow> int \<Rightarrow> int \<Rightarrow> error + int" where
  "calc_max_stack_loop env [] err stack max_stack =
     (case err of None \<Rightarrow> Inr max_stack | Some e \<Rightarrow> Inl e)"
| "calc_max_stack_loop env ((uu, uv, op, arg) # rest) err stack max_stack =
     (case stack_effect env op (if op \<ge> HAVE_ARGUMENT env then Some arg else None) of
        None \<Rightarrow> Inl ValueError
      | Some d \<Rightarrow> calc_max_stack_loop env rest err (stack + d) (max (stack + d) max_stack))"

definition calc_max_stack :: "py_env \<Rightarrow> int list \<Rightarrow> error + int" where
  "calc_max_stack env code =
     (let r = unpack_opargs env code in calc_max_stack_loop env (fst r) (snd r) 0 0)"

section \<open>Branches\<close>

definition Branch_init :: "py_env \<Rightarrow> int \<Rightarrow> int \<Rightarrow> int \<Rightarrow> int \<Rightarrow> Branch" where
  "Branch_init env offset len opcode arg =
     (let is_relative = (opcode \<in> set (hasjrel env));
          is_backward = opname_JUMP_BACKWARD env opcode
      in \<lparr>b_offset = offset, b_length = len, b_opcode = opcode,
          b_is_relative = is_relative, b_is_backward = is_backward,
          b_target = (if \<not> is_relative then branch2offset env arg
                      else offset + len
                           + branch2offset env (if is_backward then - arg else arg))\<rparr>)"

definition Branch_arg :: "py_env \<Rightarrow> Branch \<Rightarrow> error + int" where
  "Branch_arg env b =
     (if b_is_relative b
      then offset2branch env \<bar>b_target b - (b_offset b + b_length b)\<bar>
      else offset2branch env (b_target b))"

definition Branch_adjust_length :: "py_env \<Rightarrow> Branch \<Rightarrow> error + (int \<times> Branch)" where
  "Branch_adjust_length env b =
     bindE (Branch_arg env b) (\<lambda>a.
       let length_needed = 2 + 2 * arg_ext_needed a;
           change = max 0 (length_needed - b_length b)
       in if change \<noteq> 0
          then Inr (change,
                    (if b_target b > b_offset b
                     then b\<lparr>b_target := b_target b + change\<rparr> else b)
                      \<lparr>b_length := length_needed\<rparr>)
          else Inr (change, b))"

definition Branch_code :: "py_env \<Rightarrow> Branch \<Rightarrow> error + int list" where
  "Branch_code env b =
     bindE (Branch_arg env b) (\<lambda>a.
       if b_length b \<ge> 2 + 2 * arg_ext_needed a
       then bindE (Branch_arg env b) (\<lambda>a'.
              opcode_arg env (b_opcode b) a' ((b_length b - 2) div 2))
       else Inl AssertionError)"

fun Branch_from_oparg_list :: "py_env \<Rightarrow> oparg list \<Rightarrow> Branch list" where
  "Branch_from_oparg_list env [] = []"
| "Branch_from_oparg_list env ((off, len, op, arg) # rest) =
     (if op \<in> set (hasjrel env) \<union> set (hasjabs env)
      then Branch_init env off len op arg # Branch_from_oparg_list env rest
      else Branch_from_oparg_list env rest)"

definition Branch_from_code :: "py_env \<Rightarrow> int list \<Rightarrow> error + Branch list" where
  "Branch_from_code env co_code =
     (let r = unpack_opargs env co_code
      in case snd r of
           None \<Rightarrow> Inr (Branch_from_oparg_list env (fst r))
         | Some e \<Rightarrow> Inl e)"

section \<open>Variable-length integers\<close>

text \<open>
  \<^verbatim>\<open>append_varint\<close>: six bits at a time, least significant first. The loop ends because
  \<open>n >> 6\<close> is smaller than an \<open>n\<close> above 63.
\<close>

function append_varint :: "int list \<Rightarrow> int \<Rightarrow> int list" where
  "append_varint data n =
     (if n > 0x3f then append_varint (data @ [0x40 OR (n AND 0x3f)]) (drop_bit 6 n)
      else data @ [n])"
  by pat_completeness auto
termination
proof (relation "measure (\<lambda>(data, n). nat n)", goal_cases)
  case 1
  show ?case by simp
next
  case (2 data n)
  have "drop_bit 6 n = n div 64" by (simp add: drop_bit_eq_div)
  with 2 show ?case by simp
qed

declare append_varint.simps [simp del]

definition append_svarint :: "int list \<Rightarrow> int \<Rightarrow> int list" where
  "append_svarint data n =
     append_varint data (if n < 0 then push_bit 1 (- n) OR 1 else push_bit 1 n)"

text \<open>\<^verbatim>\<open>range(start, 0, -6)\<close>: \<open>start, start - 6, ...\<close> while positive.\<close>

function range_down6 :: "int \<Rightarrow> int list" where
  "range_down6 start = (if start > 0 then start # range_down6 (start - 6) else [])"
  by pat_completeness auto
termination
  by (relation "measure nat") auto

declare range_down6.simps [simp del]

text \<open>
  \<^verbatim>\<open>write_varint_be(n, mark_first)\<close>: six bits at a time, most significant first.
  \<^verbatim>\<open>top_bit % 6\<close> is Python's modulo, never negative, as \<open>mod\<close> on \<open>int\<close>; \<^verbatim>\<open>if mark_first\<close>
  holds for an integer other than zero, and the store into the bytearray raises when
  the marked byte leaves \<open>0..255\<close>.
\<close>

definition write_varint_be :: "int \<Rightarrow> int option \<Rightarrow> error + int list" where
  "write_varint_be n mark_first =
     (let top_bit = bit_length n - 1;
          data = map (\<lambda>shift. 0x40 OR (drop_bit (nat shift) n AND 0x3f))
                     (range_down6 (top_bit - top_bit mod 6))
                 @ [n AND 0x3f]
      in case mark_first of
           None \<Rightarrow> Inr data
         | Some m \<Rightarrow> (if m \<noteq> 0 then set_item data 0 (data ! 0 OR m) else Inr data))"

text \<open>
  \<^verbatim>\<open>read_varint_be(it)\<close>: the iterator is the list of the bytes not yet read; \<open>None\<close> is
  \<^verbatim>\<open>StopIteration\<close>, raised by \<^verbatim>\<open>next(it)\<close> when no byte is left.
\<close>

fun read_varint_be_loop :: "int \<Rightarrow> int list \<Rightarrow> (int \<times> int list) option" where
  "read_varint_be_loop val [] = None"
| "read_varint_be_loop val (b # it) =
     (if b AND 0x40 \<noteq> 0 then read_varint_be_loop (push_bit 6 (val OR (b AND 0x3f))) it
      else Some (val OR (b AND 0x3f), it))"

definition read_varint_be :: "int list \<Rightarrow> (int \<times> int list) option" where
  "read_varint_be it = read_varint_be_loop 0 it"

text \<open>
  Modelled from the spec: the decoder of the little-endian integers. The module has only
  their encoder, \<^verbatim>\<open>append_varint\<close>; the property that a value "round-trips through both
  the little-endian and big-endian encoders/decoders" needs its inverse. It reads what
  the encoder is said to write: six-bit chunks, least significant first, with the flag
  \<open>0x40\<close> on every chunk but the last. \<open>None\<close> is an input that ends before the last
  chunk.
\<close>

fun read_varint_le_loop :: "int \<Rightarrow> nat \<Rightarrow> int list \<Rightarrow> (int \<times> int list) option" where
  "read_varint_le_loop val shift [] = None"
| "read_varint_le_loop val shift (b # it) =
     (if b AND 0x40 \<noteq> 0
      then read_varint_le_loop (val OR push_bit shift (b AND 0x3f)) (shift + 6) it
      else Some (val OR push_bit shift (b AND 0x3f), it))"

definition read_varint_le :: "int list \<Rightarrow> (int \<times> int list) option" where
  "read_varint_le it = read_varint_le_loop 0 0 it"

section \<open>The exception table\<close>

lemma read_varint_be_loop_shorter:
  "read_varint_be_loop val it = Some (v, it') \<Longrightarrow> length it' < length it"
  by (induction it arbitrary: val) (auto split: if_splits, fastforce)

lemma read_varint_be_shorter:
  "read_varint_be it = Some (v, it') \<Longrightarrow> length it' < length it"
  unfolding read_varint_be_def by (rule read_varint_be_loop_shorter)

text \<open>
  The loop of \<^verbatim>\<open>ExceptionTableEntry.from_code\<close>: four integers a record, until
  \<^verbatim>\<open>StopIteration\<close>, which returns the entries read so far (a record cut short is
  dropped).
\<close>

function ExceptionTableEntry_from_code_loop ::
  "py_env \<Rightarrow> int list \<Rightarrow> ExceptionTableEntry list \<Rightarrow> ExceptionTableEntry list" where
  "ExceptionTableEntry_from_code_loop env it entries =
     (case read_varint_be it of
        None \<Rightarrow> entries
      | Some (a, it1) \<Rightarrow>
         (case read_varint_be it1 of
            None \<Rightarrow> entries
          | Some (l, it2) \<Rightarrow>
             (case read_varint_be it2 of
                None \<Rightarrow> entries
              | Some (t, it3) \<Rightarrow>
                 (case read_varint_be it3 of
                    None \<Rightarrow> entries
                  | Some (other, it4) \<Rightarrow>
                      ExceptionTableEntry_from_code_loop env it4
                        (entries @ [\<lparr>e_start = branch2offset env a,
                                     e_end = branch2offset env a + branch2offset env l,
                                     e_target = branch2offset env t,
                                     e_other = other\<rparr>])))))"
  by pat_completeness auto
termination
proof (relation "measure (\<lambda>(env, it, entries). length it)", goal_cases)
  case 1
  show ?case by simp
next
  case (2 env it entries x2 a it1 x2a l it2 x2b t it3 x2c other it4)
  then have "length it1 < length it" "length it2 < length it1"
    "length it3 < length it2" "length it4 < length it3"
    by (auto dest: read_varint_be_shorter)
  then show ?case by simp
qed

declare ExceptionTableEntry_from_code_loop.simps [simp del]

definition ExceptionTableEntry_from_code ::
  "py_env \<Rightarrow> int list \<Rightarrow> ExceptionTableEntry list" where
  "ExceptionTableEntry_from_code env co_exceptiontable =
     ExceptionTableEntry_from_code_loop env co_exceptiontable []"

fun make_exceptiontable_loop ::
  "py_env \<Rightarrow> int list \<Rightarrow> ExceptionTableEntry list \<Rightarrow> error + int list" where
  "make_exceptiontable_loop env table [] = Inr table"
| "make_exceptiontable_loop env table (e # entries) =
     bindE (offset2branch env (e_start e)) (\<lambda>a.
     bindE (write_varint_be a (Some 0x80)) (\<lambda>w1.
     bindE (offset2branch env (e_end e - e_start e)) (\<lambda>l.
     bindE (write_varint_be l None) (\<lambda>w2.
     bindE (offset2branch env (e_target e)) (\<lambda>t.
     bindE (write_varint_be t None) (\<lambda>w3.
     bindE (write_varint_be (e_other e) None) (\<lambda>w4.
       make_exceptiontable_loop env (table @ w1 @ w2 @ w3 @ w4) entries)))))))"

definition make_exceptiontable ::
  "py_env \<Rightarrow> ExceptionTableEntry list \<Rightarrow> error + int list" where
  "make_exceptiontable env entries = make_exceptiontable_loop env [] entries"

section \<open>Line tables\<close>

text \<open>
  \<^verbatim>\<open>LineEntry.from_code\<close> pairs up what \<^verbatim>\<open>dis.findlinestarts(code)\<close> yields, which is the
  interpreter's and so a parameter: the list of (offset, line) it yields, and the length
  of \<^verbatim>\<open>co_code\<close>.
\<close>

fun gen_lines :: "(int \<times> int option) option \<Rightarrow> (int \<times> int option) list \<Rightarrow> int
                  \<Rightarrow> LineEntry list" where
  "gen_lines last' [] code_len =
     (case last' of None \<Rightarrow> []
      | Some la \<Rightarrow> [\<lparr>l_start = fst la, l_end = code_len, l_number = snd la\<rparr>])"
| "gen_lines last' (line # rest) code_len =
     (case last' of None \<Rightarrow> gen_lines (Some line) rest code_len
      | Some la \<Rightarrow> \<lparr>l_start = fst la, l_end = fst line, l_number = snd la\<rparr>
                     # gen_lines (Some line) rest code_len)"

definition LineEntry_from_code :: "(int \<times> int option) list \<Rightarrow> int list \<Rightarrow> LineEntry list" where
  "LineEntry_from_code findlinestarts co_code =
     gen_lines None findlinestarts (int (length co_code))"

subsection \<open>Python 3.9 and before: \<^verbatim>\<open>make_lnotab\<close>\<close>

function lnotab_start_loop :: "int list \<Rightarrow> int \<Rightarrow> int list \<times> int" where
  "lnotab_start_loop lnotab delta_start =
     (if delta_start > 255 then lnotab_start_loop (lnotab @ [255, 0]) (delta_start - 255)
      else (lnotab, delta_start))"
  by pat_completeness auto
termination
  by (relation "measure (\<lambda>(lnotab, delta_start). nat delta_start)") auto

function lnotab_up_loop :: "int list \<Rightarrow> int \<Rightarrow> int \<Rightarrow> int list \<times> int \<times> int" where
  "lnotab_up_loop lnotab delta_start delta_number =
     (if delta_number > 127
      then lnotab_up_loop (lnotab @ [delta_start, 127]) 0 (delta_number - 127)
      else (lnotab, delta_start, delta_number))"
  by pat_completeness auto
termination
  by (relation "measure (\<lambda>(lnotab, delta_start, delta_number). nat delta_number)") auto

function lnotab_down_loop :: "int list \<Rightarrow> int \<Rightarrow> int \<Rightarrow> int list \<times> int \<times> int" where
  "lnotab_down_loop lnotab delta_start delta_number =
     (if delta_number < - 128
      then lnotab_down_loop (lnotab @ [delta_start, - 128 AND 0xFF]) 0 (delta_number + 128)
      else (lnotab, delta_start, delta_number))"
  by pat_completeness auto
termination
  by (relation "measure (\<lambda>(lnotab, delta_start, delta_number). nat (- delta_number))") auto

declare lnotab_start_loop.simps [simp del]
declare lnotab_up_loop.simps [simp del]
declare lnotab_down_loop.simps [simp del]

text \<open>
  \<^verbatim>\<open>l.number - prev_number\<close> raises \<^verbatim>\<open>TypeError\<close> for an entry with no line.
\<close>

fun make_lnotab_loop :: "int list \<Rightarrow> int \<Rightarrow> int \<Rightarrow> LineEntry list \<Rightarrow> error + int list" where
  "make_lnotab_loop lnotab prev_start prev_number [] = Inr lnotab"
| "make_lnotab_loop lnotab prev_start prev_number (l # lines) =
     (case l_number l of
        None \<Rightarrow> Inl TypeError
      | Some number \<Rightarrow>
         (let delta_start = l_start l - prev_start;
              delta_number = number - prev_number;
              (lnotab1, delta_start1) = lnotab_start_loop lnotab delta_start;
              (lnotab2, delta_start2, delta_number2) =
                 lnotab_up_loop lnotab1 delta_start1 delta_number;
              (lnotab3, delta_start3, delta_number3) =
                 lnotab_down_loop lnotab2 delta_start2 delta_number2;
              lnotab4 = (if delta_start3 \<noteq> 0 \<or> delta_number3 \<noteq> 0
                         then lnotab3 @ [delta_start3, delta_number3 AND 0xFF]
                         else lnotab3)
          in make_lnotab_loop lnotab4 (l_start l) number lines))"

definition make_lnotab :: "int \<Rightarrow> LineEntry list \<Rightarrow> error + int list" where
  "make_lnotab firstlineno lines = bindE (make_lnotab_loop [] 0 firstlineno lines) bytes"

subsection \<open>Python 3.10: \<^verbatim>\<open>make_linetable\<close>\<close>

function linetable_gap_loop :: "int list \<Rightarrow> int \<Rightarrow> int list \<times> int" where
  "linetable_gap_loop linetable gap =
     (if gap > 254 then linetable_gap_loop (linetable @ [254, - 128 AND 0xFF]) (gap - 254)
      else (linetable, gap))"
  by pat_completeness auto
termination
  by (relation "measure (\<lambda>(linetable, gap). nat gap)") auto

function linetable_up_loop :: "int list \<Rightarrow> int \<Rightarrow> int list \<times> int" where
  "linetable_up_loop linetable delta_number =
     (if delta_number > 127 then linetable_up_loop (linetable @ [0, 127]) (delta_number - 127)
      else (linetable, delta_number))"
  by pat_completeness auto
termination
  by (relation "measure (\<lambda>(linetable, delta_number). nat delta_number)") auto

function linetable_down_loop :: "int list \<Rightarrow> int \<Rightarrow> int list \<times> int" where
  "linetable_down_loop linetable delta_number =
     (if delta_number < - 127
      then linetable_down_loop (linetable @ [0, - 127 AND 0xFF]) (delta_number + 127)
      else (linetable, delta_number))"
  by pat_completeness auto
termination
  by (relation "measure (\<lambda>(linetable, delta_number). nat (- delta_number))") auto

function linetable_end_loop :: "int list \<Rightarrow> int \<Rightarrow> int \<Rightarrow> int list \<times> int \<times> int" where
  "linetable_end_loop linetable delta_number delta_end =
     (if delta_end > 254
      then linetable_end_loop (linetable @ [254, delta_number AND 0xFF]) 0 (delta_end - 254)
      else (linetable, delta_number, delta_end))"
  by pat_completeness auto
termination
  by (relation "measure (\<lambda>(linetable, delta_number, delta_end). nat delta_end)") auto

declare linetable_gap_loop.simps [simp del]
declare linetable_up_loop.simps [simp del]
declare linetable_down_loop.simps [simp del]
declare linetable_end_loop.simps [simp del]

text \<open>
  The body of the loop after the gap: the line's own span. \<^verbatim>\<open>l.number - prev_number\<close>
  raises \<^verbatim>\<open>TypeError\<close> when reached with no line (an entry with no line and no gap).
\<close>

definition linetable_span ::
  "int list \<Rightarrow> int \<Rightarrow> int \<Rightarrow> LineEntry \<Rightarrow> error + (int list \<times> int \<times> int)" where
  "linetable_span linetable prev_end prev_number l =
     (case l_number l of
        None \<Rightarrow> Inl TypeError
      | Some number \<Rightarrow>
         (let delta_end = l_end l - prev_end;
              delta_number = number - prev_number;
              (linetable1, delta_number1) = linetable_up_loop linetable delta_number;
              (linetable2, delta_number2) = linetable_down_loop linetable1 delta_number1;
              (linetable3, delta_number3, delta_end3) =
                 linetable_end_loop linetable2 delta_number2 delta_end
          in Inr (linetable3 @ [delta_end3, delta_number3 AND 0xFF], l_end l, number)))"

fun make_linetable_loop ::
  "int list \<Rightarrow> int \<Rightarrow> int \<Rightarrow> LineEntry list \<Rightarrow> error + int list" where
  "make_linetable_loop linetable prev_end prev_number [] = Inr linetable"
| "make_linetable_loop linetable prev_end prev_number (l # lines) =
     (let gap = (if l_number l \<noteq> None then l_start l - prev_end else l_end l - prev_end)
      in if gap \<noteq> 0
         then (let (linetable1, gap1) = linetable_gap_loop linetable gap;
                   linetable2 = linetable1 @ [gap1, - 128 AND 0xFF];
                   prev_end2 = prev_end + gap1
               in if l_number l = None
                  then make_linetable_loop linetable2 prev_end2 prev_number lines
                  else bindE (linetable_span linetable2 prev_end2 prev_number l)
                         (\<lambda>(linetable3, prev_end3, prev_number3).
                            make_linetable_loop linetable3 prev_end3 prev_number3 lines))
         else bindE (linetable_span linetable prev_end prev_number l)
                (\<lambda>(linetable3, prev_end3, prev_number3).
                   make_linetable_loop linetable3 prev_end3 prev_number3 lines))"

definition make_linetable :: "int \<Rightarrow> LineEntry list \<Rightarrow> error + int list" where
  "make_linetable firstlineno lines =
     bindE (make_linetable_loop [] 0 firstlineno lines) bytes"

subsection \<open>Python 3.11: \<^verbatim>\<open>make_positions\<close>\<close>

text \<open>Runs of up to eight instruction words with no line (code 15).\<close>

function positions_none_loop :: "int list \<Rightarrow> int \<Rightarrow> int list" where
  "positions_none_loop linetable bytecodes =
     (if bytecodes > 0
      then positions_none_loop
             (linetable @ [0x80 OR push_bit 3 15 OR (min bytecodes 8 - 1)]) (bytecodes - 8)
      else linetable)"
  by pat_completeness auto
termination
  by (relation "measure (\<lambda>(linetable, bytecodes). nat bytecodes)") auto

text \<open>Runs of up to eight instruction words of one line (code 13).\<close>

function positions_line_loop :: "int list \<Rightarrow> int \<Rightarrow> int \<Rightarrow> int list" where
  "positions_line_loop linetable line_delta bytecodes =
     (if bytecodes > 0
      then positions_line_loop
             (append_svarint (linetable @ [0x80 OR push_bit 3 13 OR (min bytecodes 8 - 1)])
                line_delta)
             0 (bytecodes - 8)
      else linetable)"
  by pat_completeness auto
termination
  by (relation "measure (\<lambda>(linetable, line_delta, bytecodes). nat bytecodes)") auto

declare positions_none_loop.simps [simp del]
declare positions_line_loop.simps [simp del]

fun make_positions_loop :: "int list \<Rightarrow> int \<Rightarrow> int \<Rightarrow> LineEntry list \<Rightarrow> int list" where
  "make_positions_loop linetable prev_end prev_number [] = linetable"
| "make_positions_loop linetable prev_end prev_number (l # lines) =
     (case l_number l of
        None \<Rightarrow>
          make_positions_loop (positions_none_loop linetable ((l_end l - prev_end) div 2))
            (l_end l) prev_number lines
      | Some number \<Rightarrow>
          (let linetable1 = (if prev_end < l_start l
                             then positions_none_loop linetable ((l_start l - prev_end) div 2)
                             else linetable);
               line_delta = number - prev_number;
               linetable2 = positions_line_loop linetable1 line_delta
                              ((l_end l - l_start l) div 2)
           in make_positions_loop linetable2 (l_end l) number lines))"

definition make_positions :: "int \<Rightarrow> LineEntry list \<Rightarrow> error + int list" where
  "make_positions firstlineno lines = bytes (make_positions_loop [] 0 firstlineno lines)"

section \<open>The editor\<close>

text \<open>
  The code object, as far as the module reads and replaces it. The constants are of any
  type \<open>'c\<close>: the module only moves them.
\<close>

record 'c code =
  co_code :: "int list"
  co_consts :: "'c list"
  co_names :: "string list"
  co_firstlineno :: int
  co_stacksize :: int
  co_lnotab :: "int list"
  co_linetable :: "int list"
  co_exceptiontable :: "int list"

record 'c Editor =
  orig_code :: "'c code"
  self_consts :: "'c list"
  branches :: "Branch list"
  ex_table :: "ExceptionTableEntry list"
  lines :: "LineEntry list"
  patch :: "int list"
  max_addtl_stack :: int
  finished :: bool

definition Editor_init ::
  "py_env \<Rightarrow> 'c code \<Rightarrow> (int \<times> int option) list \<Rightarrow> error + 'c Editor" where
  "Editor_init env code findlinestarts =
     bindE (Branch_from_code env (co_code code)) (\<lambda>bs.
       Inr \<lparr>orig_code = code,
            self_consts = co_consts code,
            branches = bs,
            ex_table = (if version_ge env (3, 11)
                        then ExceptionTableEntry_from_code env (co_exceptiontable code)
                        else []),
            lines = LineEntry_from_code findlinestarts (co_code code),
            patch = co_code code,
            max_addtl_stack = 0,
            finished = False\<rparr>)"

definition add_const :: "'c Editor \<Rightarrow> 'c \<Rightarrow> int \<times> 'c Editor" where
  "add_const ed v =
     (let ed' = ed\<lparr>self_consts := self_consts ed @ [v]\<rparr>
      in (int (length (self_consts ed')) - 1, ed'))"

text \<open>The three loops that follow every change of the buffer's length.\<close>

definition adjust_all :: "'c Editor \<Rightarrow> int \<Rightarrow> int \<Rightarrow> 'c Editor" where
  "adjust_all ed insert_offset insert_length =
     ed\<lparr>lines := map (\<lambda>l. LineEntry_adjust l insert_offset insert_length) (lines ed),
        branches := map (\<lambda>b. Branch_adjust b insert_offset insert_length) (branches ed),
        ex_table := map (\<lambda>e. ExceptionTableEntry_adjust e insert_offset insert_length)
                        (ex_table ed)\<rparr>"

subsection \<open>\<^verbatim>\<open>insert_function_call\<close>\<close>

fun load_const_args :: "py_env \<Rightarrow> int list \<Rightarrow> int list \<Rightarrow> error + int list" where
  "load_const_args env insert' [] = Inr insert'"
| "load_const_args env insert' (a # args) =
     bindE (opcode_arg env (op_LOAD_CONST env) a 0) (\<lambda>lc.
     bindE (bytearray_extend insert' lc) (\<lambda>insert''.
       load_const_args env insert'' args))"

text \<open>
  The instruction sequence built for a call, before its first operand is set: the
  function and the arguments are indices into the constants.
\<close>

definition call_sequence :: "py_env \<Rightarrow> int \<Rightarrow> int list \<Rightarrow> error + int list" where
  "call_sequence env function args =
     (if version_ge env (3, 11)
      then bindE (opcode_arg env (op_LOAD_CONST env) function 0) (\<lambda>lc.
           bindE (bytearray_extend [] ([op_NOP env, 0, op_PUSH_NULL env, 0] @ lc)) (\<lambda>insert1.
           bindE (load_const_args env insert1 args) (\<lambda>insert2.
           bindE (opcode_arg env (op_PRECALL env) (int (length args)) 0) (\<lambda>pc.
           bindE (opcode_arg env (op_CALL env) (int (length args)) 0) (\<lambda>ca.
             bytearray_extend insert2 (pc @ ca @ [op_POP_TOP env, 0]))))))
      else bindE (opcode_arg env (op_LOAD_CONST env) function 0) (\<lambda>lc.
           bindE (bytearray_extend [] ([op_NOP env, 0] @ lc)) (\<lambda>insert1.
           bindE (load_const_args env insert1 args) (\<lambda>insert2.
             bytearray_extend insert2
               [op_CALL_FUNCTION env, int (length args), op_POP_TOP env, 0]))))"

definition insert_function_call ::
  "py_env \<Rightarrow> 'c Editor \<Rightarrow> int \<Rightarrow> int \<Rightarrow> int list \<Rightarrow> error + (int \<times> 'c Editor)" where
  "insert_function_call env ed offset function args =
     bindE (call_sequence env function args) (\<lambda>insert0.
       let len_insert = int (length insert0) in
       bindE (offset2branch env (len_insert - 2)) (\<lambda>v.
       bindE (set_item insert0 1 v) (\<lambda>insert'.
       bindE (calc_max_stack env insert') (\<lambda>ms.
       bindE (set_slice (patch ed) offset offset insert') (\<lambda>p.
         Inr (len_insert,
              adjust_all (ed\<lparr>max_addtl_stack := max (max_addtl_stack ed) ms, patch := p\<rparr>)
                offset len_insert))))))"

subsection \<open>\<^verbatim>\<open>replace_global_with_const\<close>\<close>

text \<open>\<^verbatim>\<open>tuple.index\<close>, called only on an element of the tuple.\<close>

fun index_of :: "'a list \<Rightarrow> 'a \<Rightarrow> nat" where
  "index_of [] x = 0"
| "index_of (y # ys) x = (if y = x then 0 else Suc (index_of ys x))"

definition find_load_globals :: "py_env \<Rightarrow> int list \<Rightarrow> int \<Rightarrow> error + oparg list" where
  "find_load_globals env patch' name_index =
     (let r = unpack_opargs env patch'
      in case snd r of
           Some e \<Rightarrow> Inl e
         | None \<Rightarrow> Inr (filter (\<lambda>(op_off, op_len, op, op_arg).
                                  op = op_LOAD_GLOBAL env
                                  \<and> (if version_ge env (3, 11)
                                     then drop_bit 1 op_arg = name_index
                                     else op_arg = name_index))
                               (fst r)))"

fun replace_loop ::
  "py_env \<Rightarrow> 'c Editor \<Rightarrow> int \<Rightarrow> int \<Rightarrow> oparg list \<Rightarrow> error + 'c Editor" where
  "replace_loop env ed const_index delta [] = Inr ed"
| "replace_loop env ed const_index delta ((op_off, op_len, op, op_arg) # rest) =
     bindE (if version_ge env (3, 11) \<and> op_arg AND 1 \<noteq> 0
            then bindE (opcode_arg env (op_PUSH_NULL env) 0 0) (bytearray_extend [])
            else Inr []) (\<lambda>repl1.
     bindE (opcode_arg env (op_LOAD_CONST env) const_index 0) (\<lambda>lc.
     bindE (bytearray_extend repl1 lc) (\<lambda>repl.
       let op_off' = op_off + delta in
       bindE (set_slice (patch ed) op_off' (op_off' + op_len) repl) (\<lambda>p.
         let change = int (length repl) - op_len;
             ed1 = ed\<lparr>patch := p\<rparr>;
             ed2 = (if change \<noteq> 0 then adjust_all ed1 op_off' change else ed1)
         in replace_loop env ed2 const_index (delta + change) rest))))"

definition replace_global_with_const ::
  "py_env \<Rightarrow> 'c Editor \<Rightarrow> string \<Rightarrow> int \<Rightarrow> error + 'c Editor" where
  "replace_global_with_const env ed global_name const_index =
     (if global_name \<in> set (co_names (orig_code ed))
      then (let name_index = int (index_of (co_names (orig_code ed)) global_name)
            in bindE (find_load_globals env (patch ed) name_index)
                 (replace_loop env ed const_index 0))
      else Inr ed)"

subsection \<open>\<^verbatim>\<open>finish\<close>\<close>

text \<open>
  \<^verbatim>\<open>for c in self.branches: if b != c: c.adjust(...)\<close>: the class defines no equality, so
  \<^verbatim>\<open>b != c\<close> compares the objects, that is, their places in the list.
\<close>

definition adjust_others :: "Branch list \<Rightarrow> nat \<Rightarrow> int \<Rightarrow> int \<Rightarrow> Branch list" where
  "adjust_others bs i insert_offset insert_length =
     map (\<lambda>(j, c). if j = i then c else Branch_adjust c insert_offset insert_length)
         (enumerate 0 bs)"

text \<open>
  The methods of the editor change it in place, and an exception leaves it as it is
  at the \<^verbatim>\<open>raise\<close>. So the error side of a result of \<^verbatim>\<open>finish\<close> and of its loops carries
  the editor, or the buffer, as the exception leaves it.

  One pass of the \<^verbatim>\<open>for b in self.branches\<close> loop inside the \<^verbatim>\<open>while\<close>, from the branch
  at index \<open>i\<close> on; it returns \<^verbatim>\<open>any_adjusted\<close> and the editor. \<^verbatim>\<open>adjust_length\<close> raises,
  in \<^verbatim>\<open>arg\<close>, before it changes the branch.
\<close>

function finish_scan ::
  "py_env \<Rightarrow> 'c Editor \<Rightarrow> nat \<Rightarrow> bool
   \<Rightarrow> (error \<times> 'c Editor) + (bool \<times> 'c Editor)" where
  "finish_scan env ed i any_adjusted =
     (if i < length (branches ed)
      then (case Branch_adjust_length env (branches ed ! i) of
              Inl e \<Rightarrow> Inl (e, ed)
            | Inr (change, b) \<Rightarrow>
               (if change \<noteq> 0
                then (case set_slice (patch ed) (b_offset b) (b_offset b)
                             (replicate (nat change) 0) of
                        Inl e \<Rightarrow> Inl (e, ed\<lparr>branches := (branches ed)[i := b]\<rparr>)
                      | Inr p \<Rightarrow>
                         finish_scan env
                           (ed\<lparr>patch := p,
                               branches := adjust_others ((branches ed)[i := b]) i
                                             (b_offset b) change,
                               lines := map (\<lambda>l. LineEntry_adjust l (b_offset b) change)
                                            (lines ed),
                               ex_table := map (\<lambda>e. ExceptionTableEntry_adjust e
                                                       (b_offset b) change)
                                               (ex_table ed)\<rparr>)
                           (Suc i) True)
                else finish_scan env (ed\<lparr>branches := (branches ed)[i := b]\<rparr>)
                       (Suc i) any_adjusted))
      else Inr (any_adjusted, ed))"
  by pat_completeness auto
termination
  by (relation "measure (\<lambda>(env, ed, i, any_adjusted). length (branches ed) - i)")
     (auto simp: adjust_others_def)

declare finish_scan.simps [simp del]

text \<open>
  The \<^verbatim>\<open>while any_adjusted\<close> loop. Whether it ends is a property of the code, so the model
  does not assume it: \<open>None\<close> is a loop that runs forever.
\<close>

partial_function (option) finish_loop ::
  "py_env \<Rightarrow> 'c Editor \<Rightarrow> ((error \<times> 'c Editor) + 'c Editor) option" where
  "finish_loop env ed =
     (case finish_scan env ed 0 False of
        Inl e \<Rightarrow> Some (Inl e)
      | Inr (any_adjusted, ed') \<Rightarrow>
          (if any_adjusted then finish_loop env ed' else Some (Inr ed')))"

declare finish_loop.simps [code]

text \<open>
  Writing every branch back into the buffer, in place. The assertion, \<^verbatim>\<open>code\<close> and the
  store of one branch raise before the buffer is changed for that branch.
\<close>

fun finish_emit ::
  "py_env \<Rightarrow> int list \<Rightarrow> Branch list \<Rightarrow> (error \<times> int list) + int list" where
  "finish_emit env patch' [] = Inr patch'"
| "finish_emit env patch' (b # bs) =
     (case bindE (get_item patch' (b_offset b + b_length b - 2)) (\<lambda>op.
             if op = b_opcode b
             then bindE (Branch_code env b) (\<lambda>c.
                    set_slice patch' (b_offset b) (b_offset b + b_length b) c)
             else Inl AssertionError) of
        Inl e \<Rightarrow> Inl (e, patch')
      | Inr p \<Rightarrow> finish_emit env p bs)"

text \<open>
  The tables of the rewritten code object, by interpreter version: the original code
  object with the keyword arguments that \<^verbatim>\<open>finish\<close> collects for \<^verbatim>\<open>code.replace\<close>.
\<close>

definition finish_tables :: "py_env \<Rightarrow> 'c Editor \<Rightarrow> error + 'c code" where
  "finish_tables env ed =
     (if \<not> version_ge env (3, 10)
      then bindE (make_lnotab (co_firstlineno (orig_code ed)) (lines ed)) (\<lambda>t.
             Inr ((orig_code ed)\<lparr>co_lnotab := t\<rparr>))
      else if PYTHON_VERSION env = (3, 10)
      then bindE (make_linetable (co_firstlineno (orig_code ed)) (lines ed)) (\<lambda>t.
             Inr ((orig_code ed)\<lparr>co_linetable := t\<rparr>))
      else bindE (make_positions (co_firstlineno (orig_code ed)) (lines ed)) (\<lambda>t.
           bindE (make_exceptiontable env (ex_table ed)) (\<lambda>x.
             Inr ((orig_code ed)\<lparr>co_linetable := t, co_exceptiontable := x\<rparr>))))"

text \<open>
  \<^verbatim>\<open>code.replace\<close> with the instruction bytes, the stack size and the constants: the
  interpreter validates the bytes and the stack size, and raises or returns the new
  code object.
\<close>

definition code_replace ::
  "py_env \<Rightarrow> 'c code \<Rightarrow> int list \<Rightarrow> int \<Rightarrow> 'c list \<Rightarrow> error + 'c code" where
  "code_replace env c code_bytes stacksize consts' =
     (case code_replace_check env code_bytes stacksize of
        Some e \<Rightarrow> Inl e
      | None \<Rightarrow> Inr (c\<lparr>co_code := code_bytes, co_stacksize := stacksize,
                        co_consts := consts'\<rparr>))"

text \<open>
  \<^verbatim>\<open>finish\<close>: what the call returns or raises, and the editor after the call. The flag is
  set after the loop, the writing back and the tables, and before \<^verbatim>\<open>code.replace\<close>.
\<close>

definition Editor_finish ::
  "py_env \<Rightarrow> 'c Editor \<Rightarrow> ((error + 'c code) \<times> 'c Editor) option" where
  "Editor_finish env ed =
     (if finished ed then Some (Inl AssertionError, ed)
      else (case finish_loop env ed of
              None \<Rightarrow> None
            | Some (Inl (e, ed0)) \<Rightarrow> Some (Inl e, ed0)
            | Some (Inr ed1) \<Rightarrow>
               (case finish_emit env (patch ed1) (branches ed1) of
                  Inl (e, p) \<Rightarrow> Some (Inl e, ed1\<lparr>patch := p\<rparr>)
                | Inr p \<Rightarrow>
                   (let ed2 = ed1\<lparr>patch := p\<rparr> in
                    case finish_tables env ed2 of
                      Inl e \<Rightarrow> Some (Inl e, ed2)
                    | Inr c \<Rightarrow>
                       (let ed3 = ed2\<lparr>finished := True\<rparr> in
                        Some (bindE (bytes (patch ed3)) (\<lambda>code_bytes.
                                code_replace env c code_bytes
                                  (co_stacksize (orig_code ed3) + max_addtl_stack ed3)
                                  (self_consts ed3)),
                              ed3))))))"

section \<open>A concrete interpreter\<close>

text \<open>
  The tables of CPython 3.11, for the examples: the opcode numbers the module names, the
  relative jumps (3.11 has no absolute ones), the opcodes whose name contains
  \<^verbatim>\<open>JUMP_BACKWARD\<close>, the inline cache entries, and \<^verbatim>\<open>dis.stack_effect\<close> on the opcodes of
  an inserted call. \<^verbatim>\<open>CALL_FUNCTION\<close> is not an opcode of 3.11 and is never read there.
  \<^verbatim>\<open>code.replace\<close> of 3.11 converts the stack size to a C \<^verbatim>\<open>int\<close> (\<^verbatim>\<open>OverflowError\<close>),
  refuses a negative one, and refuses instruction bytes that are too many or not a whole
  number of two-byte code units (\<^verbatim>\<open>ValueError\<close>: \<^verbatim>\<open>co_code is malformed\<close>).
\<close>

definition python_3_11 :: py_env where
  "python_3_11 =
     \<lparr>PYTHON_VERSION = (3, 11),
      op_EXTENDED_ARG = 144,
      op_EXTENDED_ARG_QUICK = 34,
      op_LOAD_CONST = 100,
      op_LOAD_GLOBAL = 116,
      op_PUSH_NULL = 2,
      op_PRECALL = 166,
      op_CALL = 171,
      op_CACHE = 0,
      op_CALL_FUNCTION = 131,
      op_POP_TOP = 1,
      op_NOP = 9,
      hasjrel = [93, 110, 111, 112, 114, 115, 123, 128, 129, 134, 140, 173, 174, 175, 176],
      hasjabs = [],
      opname_JUMP_BACKWARD = (\<lambda>op. op \<in> set [134, 140, 173, 174, 175, 176]),
      inline_cache_entries =
        (\<lambda>op. if op \<in> set [25, 95, 106, 171] then 4
              else if op \<in> set [60, 92, 122, 166] then 1
              else if op = 107 then 2
              else if op = 116 then 5
              else if op = 160 then 10
              else 0),
      stack_effect =
        (\<lambda>op arg. if op \<in> set [0, 9] then (case arg of None \<Rightarrow> Some 0 | Some a \<Rightarrow> None)
                  else if op = 1 then (case arg of None \<Rightarrow> Some (- 1) | Some a \<Rightarrow> None)
                  else if op = 2 then (case arg of None \<Rightarrow> Some 1 | Some a \<Rightarrow> None)
                  else if op = 100 then (case arg of None \<Rightarrow> None | Some a \<Rightarrow> Some 1)
                  else if op = 166 then (case arg of None \<Rightarrow> None | Some a \<Rightarrow> Some (- a))
                  else if op = 171 then (case arg of None \<Rightarrow> None | Some a \<Rightarrow> Some (- 1))
                  else None),
      HAVE_ARGUMENT = 90,
      code_replace_check =
        (\<lambda>code_bytes stacksize.
           if stacksize < - 2147483648 \<or> 2147483647 < stacksize then Some OverflowError
           else if stacksize < 0 then Some ValueError
           else if 2147483647 < int (length code_bytes) then Some OverflowError
           else if odd (length code_bytes) then Some ValueError
           else None)\<rparr>"

text \<open>
  A small function body of 3.11 and its editor: a constant load, a forward conditional
  jump over the next instruction, a second load and a return, all on line 1.
\<close>

definition example_code :: "unit code" where
  "example_code =
     \<lparr>co_code = [100, 0, 114, 1, 100, 1, 83, 0], co_consts = [(), ()],
      co_names = [''g''], co_firstlineno = 1, co_stacksize = 1, co_lnotab = [],
      co_linetable = [], co_exceptiontable = []\<rparr>"

definition example_editor :: "unit Editor" where
  "example_editor =
     \<lparr>orig_code = example_code, self_consts = [(), ()],
      branches = [\<lparr>b_offset = 2, b_length = 2, b_opcode = 114, b_is_relative = True,
                    b_is_backward = False, b_target = 6\<rparr>],
      ex_table = [],
      lines = [\<lparr>l_start = 0, l_end = 8, l_number = Some 1\<rparr>],
      patch = [100, 0, 114, 1, 100, 1, 83, 0], max_addtl_stack = 0, finished = False\<rparr>"

lemma example_editor_init:
  "Editor_init python_3_11 example_code [(0, Some 1)] = Inr example_editor"
  by code_simp

text \<open>
  A function body of 3.11 with a forward jump over a backward jump, both one word short
  of needing an operand prefix once a call is inserted after the first: 496 bytes, all
  on line 1. \<open>cascade_editor\<close> is its editor after \<^verbatim>\<open>insert_function_call\<close> at offset 6.
\<close>

definition cascade_code :: "unit code" where
  "cascade_code =
     \<lparr>co_code = [9, 0, 9, 0, 110, 244] @ concat (replicate 242 [9, 0])
                 @ [140, 245, 9, 0, 83, 0],
      co_consts = [(), ()], co_names = [], co_firstlineno = 1, co_stacksize = 1,
      co_lnotab = [], co_linetable = [], co_exceptiontable = []\<rparr>"

definition cascade_editor :: "unit Editor" where
  "cascade_editor =
     \<lparr>orig_code = cascade_code, self_consts = [(), ()],
      branches = [\<lparr>b_offset = 4, b_length = 2, b_opcode = 110, b_is_relative = True,
                    b_is_backward = False, b_target = 516\<rparr>,
                  \<lparr>b_offset = 512, b_length = 2, b_opcode = 140, b_is_relative = True,
                    b_is_backward = True, b_target = 2\<rparr>],
      ex_table = [],
      lines = [\<lparr>l_start = 0, l_end = 518, l_number = Some 1\<rparr>],
      patch = [9, 0, 9, 0, 110, 244]
              @ [9, 10, 2, 0, 100, 1, 166, 0, 0, 0, 171, 0, 0, 0, 0, 0, 0, 0, 0, 0, 1, 0]
              @ concat (replicate 242 [9, 0]) @ [140, 245, 9, 0, 83, 0],
      max_addtl_stack = 2, finished = False\<rparr>"


text \<open>
  An editor with one forward branch whose operand is \<open>2 ^ 32\<close> words.
\<close>

definition wide_branch :: Branch where
  "wide_branch = \<lparr>b_offset = 0, b_length = 2, b_opcode = 110, b_is_relative = True,
                   b_is_backward = False, b_target = 8589934594\<rparr>"

definition wide_editor :: "unit Editor" where
  "wide_editor =
     \<lparr>orig_code = example_code, self_consts = [(), ()], branches = [wide_branch],
      ex_table = [], lines = [], patch = [110, 0], max_addtl_stack = 0, finished = False\<rparr>"



section \<open>Measures of the growth loop\<close>

text \<open>
  What the termination of the loop in \<^verbatim>\<open>finish\<close> is measured with. The weight of a
  branch bounds its operand. An insertion of \<open>c\<close> bytes adds \<open>c\<close> to the sum of the
  lengths and at most \<open>2 * c\<close> to each weight, so the total weight minus \<open>2 * n\<close> times
  the total length never grows (\<open>K\<close> below); \<open>L\<close> is a length that every operand the
  invariant allows fits in.
\<close>

definition branch_weight :: "Branch \<Rightarrow> int" where
  "branch_weight b = \<bar>b_target b\<bar> + \<bar>b_offset b\<bar> + \<bar>b_length b\<bar>"

definition grow_inv :: "nat \<Rightarrow> int \<Rightarrow> int \<Rightarrow> int list \<Rightarrow> Branch list \<Rightarrow> bool" where
  "grow_inv n K L lens0 bs \<longleftrightarrow>
     length bs = n \<and> length lens0 = n
     \<and> sum_list (map branch_weight bs) - 2 * int n * sum_list (map b_length bs) \<le> K
     \<and> (\<forall>j<n. b_length (bs ! j) \<le> max (lens0 ! j) L)"

definition bound_ok :: "nat \<Rightarrow> int \<Rightarrow> int \<Rightarrow> int list \<Rightarrow> bool" where
  "bound_ok n K L lens0 \<longleftrightarrow>
     (\<forall>a. \<bar>a\<bar> \<le> K + 2 * int n * sum_list (map (\<lambda>l. max l L) lens0)
          \<longrightarrow> 2 + 2 * arg_ext_needed a \<le> L)"

section \<open>Adjusting entries after an insertion\<close>

text \<open>
  Claim C1. \<^verbatim>\<open>ExceptionTableEntry.adjust\<close> adds \<open>insert_length\<close> to \<open>start\<close> exactly
  when \<open>insert_offset \<le> start\<close>, to \<open>end\<close> exactly when \<open>insert_offset < end\<close>, and to
  \<open>target\<close> exactly when \<open>insert_offset < target\<close>, each test on the value before the
  call; a field whose test fails keeps its value, and \<open>other\<close> is never touched. This
  holds for every \<open>insert_length\<close>; for a length other than zero the new value is the old
  one plus \<open>insert_length\<close> if and only if the test holds. For the entry with start 4,
  end 20 and target 20, an insertion at 4 moves the start, and an insertion at 20 moves
  neither the end nor the target.
\<close>

theorem ExceptionTableEntry_adjust_boundaries:
  "e_start (ExceptionTableEntry_adjust e insert_offset insert_length)
     = (if insert_offset \<le> e_start e then e_start e + insert_length else e_start e)
   \<and> e_end (ExceptionTableEntry_adjust e insert_offset insert_length)
     = (if insert_offset < e_end e then e_end e + insert_length else e_end e)
   \<and> e_target (ExceptionTableEntry_adjust e insert_offset insert_length)
     = (if insert_offset < e_target e then e_target e + insert_length else e_target e)
   \<and> e_other (ExceptionTableEntry_adjust e insert_offset insert_length) = e_other e
   \<and> (insert_length \<noteq> 0 \<longrightarrow>
        (e_start (ExceptionTableEntry_adjust e insert_offset insert_length)
           = e_start e + insert_length \<longleftrightarrow> insert_offset \<le> e_start e)
      \<and> (e_end (ExceptionTableEntry_adjust e insert_offset insert_length)
           = e_end e + insert_length \<longleftrightarrow> insert_offset < e_end e)
      \<and> (e_target (ExceptionTableEntry_adjust e insert_offset insert_length)
           = e_target e + insert_length \<longleftrightarrow> insert_offset < e_target e))
   \<and> e_start (ExceptionTableEntry_adjust
                \<lparr>e_start = 4, e_end = 20, e_target = 20, e_other = other\<rparr> 4 insert_length)
     = 4 + insert_length
   \<and> e_end (ExceptionTableEntry_adjust
              \<lparr>e_start = 4, e_end = 20, e_target = 20, e_other = other\<rparr> 20 insert_length)
     = 20
   \<and> e_target (ExceptionTableEntry_adjust
                 \<lparr>e_start = 4, e_end = 20, e_target = 20, e_other = other\<rparr> 20 insert_length)
     = 20"
  by (simp add: ExceptionTableEntry_adjust_def Let_def)

theorem ExceptionTableEntry_adjust_boundaries_witness:
  "ExceptionTableEntry_adjust \<lparr>e_start = 4, e_end = 20, e_target = 20, e_other = 1\<rparr> 4 6
     = \<lparr>e_start = 10, e_end = 26, e_target = 26, e_other = 1\<rparr>
   \<and> ExceptionTableEntry_adjust \<lparr>e_start = 4, e_end = 20, e_target = 20, e_other = 1\<rparr> 20 6
     = \<lparr>e_start = 4, e_end = 20, e_target = 20, e_other = 1\<rparr>"
proof -
  let ?e = "\<lparr>e_start = 4, e_end = 20, e_target = 20, e_other = 1\<rparr>"
  have six: "(6::int) \<noteq> 0" by simp
  note at4 = ExceptionTableEntry_adjust_boundaries [of ?e 4 6 1]
  note at20 = ExceptionTableEntry_adjust_boundaries [of ?e 20 6 1]
  have "ExceptionTableEntry_adjust ?e 4 6
          = \<lparr>e_start = 10, e_end = 26, e_target = 26, e_other = 1\<rparr>"
    using at4 six by (cases "ExceptionTableEntry_adjust ?e 4 6") simp
  moreover have "ExceptionTableEntry_adjust ?e 20 6 = ?e"
    using at20 six by (cases "ExceptionTableEntry_adjust ?e 20 6") simp
  ultimately show ?thesis by simp
qed

text \<open>
  Claim C3. \<^verbatim>\<open>LineEntry.adjust\<close> adds \<open>insert_length\<close> to \<open>start\<close> exactly when
  \<open>start > insert_offset\<close> and to \<open>end\<close> exactly when \<open>end > insert_offset\<close>, both tests
  strict and on the values before the call; the line number is never touched. For a
  length other than zero the new value is the old one plus \<open>insert_length\<close> if and only
  if the test holds. A line entry that starts at the insertion point keeps its start,
  where an exception table entry that starts there moves it.
\<close>

theorem LineEntry_adjust_boundaries:
  "l_start (LineEntry_adjust l insert_offset insert_length)
     = (if l_start l > insert_offset then l_start l + insert_length else l_start l)
   \<and> l_end (LineEntry_adjust l insert_offset insert_length)
     = (if l_end l > insert_offset then l_end l + insert_length else l_end l)
   \<and> l_number (LineEntry_adjust l insert_offset insert_length) = l_number l
   \<and> (insert_length \<noteq> 0 \<longrightarrow>
        (l_start (LineEntry_adjust l insert_offset insert_length)
           = l_start l + insert_length \<longleftrightarrow> l_start l > insert_offset)
      \<and> (l_end (LineEntry_adjust l insert_offset insert_length)
           = l_end l + insert_length \<longleftrightarrow> l_end l > insert_offset))
   \<and> (l_start l = insert_offset \<longrightarrow>
        l_start (LineEntry_adjust l insert_offset insert_length) = l_start l)
   \<and> (e_start e = insert_offset \<longrightarrow>
        e_start (ExceptionTableEntry_adjust e insert_offset insert_length)
          = e_start e + insert_length)"
  by (simp add: LineEntry_adjust_def ExceptionTableEntry_adjust_def Let_def)

theorem LineEntry_adjust_boundaries_witness:
  "LineEntry_adjust \<lparr>l_start = 4, l_end = 20, l_number = Some 7\<rparr> 4 6
     = \<lparr>l_start = 4, l_end = 26, l_number = Some 7\<rparr>
   \<and> e_start (ExceptionTableEntry_adjust
                \<lparr>e_start = 4, e_end = 20, e_target = 20, e_other = 1\<rparr> 4 6) = 10"
proof -
  let ?l = "\<lparr>l_start = 4, l_end = 20, l_number = Some 7\<rparr>"
  let ?e = "\<lparr>e_start = 4, e_end = 20, e_target = 20, e_other = 1\<rparr>"
  note at4 = LineEntry_adjust_boundaries [of ?l 4 6 ?e]
  have "LineEntry_adjust ?l 4 6 = \<lparr>l_start = 4, l_end = 26, l_number = Some 7\<rparr>"
    using at4 by (cases "LineEntry_adjust ?l 4 6") simp
  moreover have "e_start (ExceptionTableEntry_adjust ?e 4 6) = 10"
    using at4 by simp
  ultimately show ?thesis by simp
qed

section \<open>Growing a branch\<close>

text \<open>\<^verbatim>\<open>Branch.arg\<close> fails only on the parity assertion of Python 3.10 and later.\<close>

lemma Branch_arg_returns:
  "\<not> version_ge env (3, 10) \<or> (b_is_relative b \<and> even (b_target b - (b_offset b + b_length b)))
     \<or> (\<not> b_is_relative b \<and> even (b_target b))
   \<Longrightarrow> \<exists>a. Branch_arg env b = Inr a"
  by (auto simp: Branch_arg_def offset2branch_def even_iff_mod_2_eq_zero)

text \<open>
  Claim C6. Whenever \<^verbatim>\<open>b.arg()\<close> has a value \<open>a\<close> (it always has one before Python
  3.10; from 3.10 on it asserts that the distance is even), \<^verbatim>\<open>adjust_length\<close> returns
  \<open>max 0 (2 + 2 * arg_ext_needed a - length)\<close>. When that amount is positive the length
  becomes \<open>2 + 2 * arg_ext_needed a\<close> and the target grows by the amount exactly when
  the old target is strictly after the offset, offset and opcode staying as they are;
  when the amount is zero the branch is unchanged; the length never decreases.
\<close>

theorem Branch_adjust_length_growth:
  assumes "Branch_arg env b = Inr a"
  shows "\<exists>b'. Branch_adjust_length env b
                = Inr (max 0 (2 + 2 * arg_ext_needed a - b_length b), b')
           \<and> (0 < max 0 (2 + 2 * arg_ext_needed a - b_length b) \<longrightarrow>
                b_length b' = 2 + 2 * arg_ext_needed a
              \<and> b_target b' = (if b_target b > b_offset b
                               then b_target b
                                    + max 0 (2 + 2 * arg_ext_needed a - b_length b)
                               else b_target b)
              \<and> (b_target b' = b_target b + max 0 (2 + 2 * arg_ext_needed a - b_length b)
                   \<longleftrightarrow> b_target b > b_offset b)
              \<and> b_offset b' = b_offset b \<and> b_opcode b' = b_opcode b
              \<and> b_is_relative b' = b_is_relative b \<and> b_is_backward b' = b_is_backward b)
           \<and> (max 0 (2 + 2 * arg_ext_needed a - b_length b) = 0 \<longrightarrow> b' = b)
           \<and> b_length b \<le> b_length b'"
  using assms by (auto simp: Branch_adjust_length_def bindE_def Let_def)

lemma arg_ext_needed_498: "arg_ext_needed 498 = 1"
  by code_simp

theorem Branch_adjust_length_growth_witness:
  "Branch_adjust_length python_3_11
     \<lparr>b_offset = 2, b_length = 2, b_opcode = 114, b_is_relative = True,
      b_is_backward = False, b_target = 1000\<rparr>
   = Inr (2, \<lparr>b_offset = 2, b_length = 4, b_opcode = 114, b_is_relative = True,
              b_is_backward = False, b_target = 1002\<rparr>)"
proof -
  let ?b = "\<lparr>b_offset = 2, b_length = 2, b_opcode = 114, b_is_relative = True,
             b_is_backward = False, b_target = 1000\<rparr>"
  have a: "Branch_arg python_3_11 ?b = Inr 498" by code_simp
  from Branch_adjust_length_growth [OF a] obtain b' where
    r: "Branch_adjust_length python_3_11 ?b
          = Inr (max 0 (2 + 2 * arg_ext_needed 498 - b_length ?b), b')"
    and g: "0 < max 0 (2 + 2 * arg_ext_needed 498 - b_length ?b) \<longrightarrow>
              b_length b' = 2 + 2 * arg_ext_needed 498
            \<and> b_target b' = (if b_target ?b > b_offset ?b
                             then b_target ?b
                                  + max 0 (2 + 2 * arg_ext_needed 498 - b_length ?b)
                             else b_target ?b)
            \<and> (b_target b' = b_target ?b + max 0 (2 + 2 * arg_ext_needed 498 - b_length ?b)
                 \<longleftrightarrow> b_target ?b > b_offset ?b)
            \<and> b_offset b' = b_offset ?b \<and> b_opcode b' = b_opcode ?b
            \<and> b_is_relative b' = b_is_relative ?b \<and> b_is_backward b' = b_is_backward ?b"
    by blast
  from g have "b' = \<lparr>b_offset = 2, b_length = 4, b_opcode = 114, b_is_relative = True,
                     b_is_backward = False, b_target = 1002\<rparr>"
    by (cases b') (simp add: arg_ext_needed_498)
  with r show ?thesis by (simp add: arg_ext_needed_498)
qed

section \<open>Replacing a global that the function does not name\<close>

text \<open>
  Claim C10. For a name that is not in \<^verbatim>\<open>co_names\<close> of the original code object,
  \<^verbatim>\<open>replace_global_with_const\<close> returns with the editor exactly as it was: buffer,
  branches, line entries, exception table entries, constants, \<^verbatim>\<open>max_addtl_stack\<close> and
  the finished flag, whatever the constant index.
\<close>

theorem replace_global_with_const_absent_name:
  "global_name \<notin> set (co_names (orig_code ed))
   \<Longrightarrow> replace_global_with_const env ed global_name const_index = Inr ed"
  by (simp add: replace_global_with_const_def)

theorem replace_global_with_const_absent_name_witness:
  "''h'' \<notin> set (co_names (orig_code example_editor))
   \<and> replace_global_with_const python_3_11 example_editor ''h'' 1 = Inr example_editor"
proof -
  have h: "''h'' \<notin> set (co_names (orig_code example_editor))"
    by (simp add: example_editor_def example_code_def)
  from replace_global_with_const_absent_name [OF h, of python_3_11 1] h
  show ?thesis by simp
qed

section \<open>Inserting a call before a forward branch\<close>

lemma insert_function_call_effect:
  assumes "insert_function_call env ed offset function args = Inr (n, ed')"
  shows "\<exists>ins. int (length ins) = n
           \<and> set_slice (patch ed) offset offset ins = Inr (patch ed')
           \<and> branches ed' = map (\<lambda>b. Branch_adjust b offset n) (branches ed)
           \<and> lines ed' = map (\<lambda>l. LineEntry_adjust l offset n) (lines ed)
           \<and> ex_table ed' = map (\<lambda>e. ExceptionTableEntry_adjust e offset n) (ex_table ed)"
  using assms
  apply (auto simp: insert_function_call_def bindE_def Let_def adjust_all_def set_item_def
              split: sum.splits option.splits if_splits)
  subgoal for x2 x2a x2c x2d x2e
    by (rule exI [of _ "x2[x2e := x2a]"]) simp
  done

lemma set_slice_at_0:
  "set_slice xs 0 0 ys = Inr zs \<Longrightarrow> zs = ys @ xs"
  by (auto simp: set_slice_def slice_index_def Let_def split: if_splits)

text \<open>
  Claim C2. \<^verbatim>\<open>Branch.adjust\<close> adds \<open>insert_length\<close> to the branch's offset exactly when
  the offset is at or after the insertion point, and, independently, to its target
  exactly when the target is strictly after the insertion point, both tests on the
  values before the call; length and opcode stay. For a length other than zero the new
  value is the old one plus \<open>insert_length\<close> if and only if the test holds. So when
  \<^verbatim>\<open>insert_function_call\<close> at offset 0 returns \<open>n\<close>, the buffer has grown by \<open>n\<close> bytes
  and every forward branch of the function (offset not negative, target after the
  offset) has its target moved by exactly \<open>n\<close>, its opcode unchanged.
\<close>

theorem Branch_adjust_boundaries:
  "b_offset (Branch_adjust b insert_offset insert_length)
     = (if b_offset b \<ge> insert_offset then b_offset b + insert_length else b_offset b)
   \<and> b_target (Branch_adjust b insert_offset insert_length)
     = (if b_target b > insert_offset then b_target b + insert_length else b_target b)
   \<and> b_length (Branch_adjust b insert_offset insert_length) = b_length b
   \<and> b_opcode (Branch_adjust b insert_offset insert_length) = b_opcode b
   \<and> (insert_length \<noteq> 0 \<longrightarrow>
        (b_offset (Branch_adjust b insert_offset insert_length)
           = b_offset b + insert_length \<longleftrightarrow> b_offset b \<ge> insert_offset)
      \<and> (b_target (Branch_adjust b insert_offset insert_length)
           = b_target b + insert_length \<longleftrightarrow> b_target b > insert_offset))
   \<and> (insert_function_call env ed 0 function args = Inr (n, ed') \<longrightarrow>
        int (length (patch ed')) = int (length (patch ed)) + n
      \<and> length (branches ed') = length (branches ed)
      \<and> (\<forall>i < length (branches ed).
            0 \<le> b_offset (branches ed ! i)
            \<and> b_offset (branches ed ! i) < b_target (branches ed ! i)
            \<longrightarrow> b_target (branches ed' ! i) = b_target (branches ed ! i) + n
              \<and> b_opcode (branches ed' ! i) = b_opcode (branches ed ! i)))"
proof -
  have adj: "b_offset (Branch_adjust b insert_offset insert_length)
     = (if b_offset b \<ge> insert_offset then b_offset b + insert_length else b_offset b)
   \<and> b_target (Branch_adjust b insert_offset insert_length)
     = (if b_target b > insert_offset then b_target b + insert_length else b_target b)
   \<and> b_length (Branch_adjust b insert_offset insert_length) = b_length b
   \<and> b_opcode (Branch_adjust b insert_offset insert_length) = b_opcode b"
    for b insert_offset insert_length
    by (simp add: Branch_adjust_def Let_def)
  have ins: "int (length (patch ed')) = int (length (patch ed)) + n
      \<and> length (branches ed') = length (branches ed)
      \<and> (\<forall>i < length (branches ed).
            0 \<le> b_offset (branches ed ! i)
            \<and> b_offset (branches ed ! i) < b_target (branches ed ! i)
            \<longrightarrow> b_target (branches ed' ! i) = b_target (branches ed ! i) + n
              \<and> b_opcode (branches ed' ! i) = b_opcode (branches ed ! i))"
    if call: "insert_function_call env ed 0 function args = Inr (n, ed')"
  proof -
    from insert_function_call_effect [OF call] obtain ins where
      len: "int (length ins) = n"
      and sl: "set_slice (patch ed) 0 0 ins = Inr (patch ed')"
      and bs: "branches ed' = map (\<lambda>b. Branch_adjust b 0 n) (branches ed)"
      by blast
    from set_slice_at_0 [OF sl] len
    have "int (length (patch ed')) = int (length (patch ed)) + n" by simp
    moreover from bs have "length (branches ed') = length (branches ed)" by simp
    moreover from bs have "\<forall>i < length (branches ed).
            0 \<le> b_offset (branches ed ! i)
            \<and> b_offset (branches ed ! i) < b_target (branches ed ! i)
            \<longrightarrow> b_target (branches ed' ! i) = b_target (branches ed ! i) + n
              \<and> b_opcode (branches ed' ! i) = b_opcode (branches ed ! i)"
      by (simp add: adj)
    ultimately show ?thesis by blast
  qed
  from adj [of b insert_offset insert_length] ins show ?thesis by simp
qed

lemma example_insert:
  "insert_function_call python_3_11 example_editor 0 1 []
   = Inr (22, example_editor
        \<lparr>branches := [\<lparr>b_offset = 24, b_length = 2, b_opcode = 114, b_is_relative = True,
                        b_is_backward = False, b_target = 28\<rparr>],
         lines := [\<lparr>l_start = 0, l_end = 30, l_number = Some 1\<rparr>],
         patch := [9, 10, 2, 0, 100, 1, 166, 0, 0, 0, 171, 0, 0, 0, 0, 0, 0, 0, 0, 0, 1, 0,
                   100, 0, 114, 1, 100, 1, 83, 0],
         max_addtl_stack := 2\<rparr>)"
  by code_simp

theorem Branch_adjust_boundaries_witness:
  "(\<exists>ed'. insert_function_call python_3_11 example_editor 0 1 [] = Inr (22, ed')
       \<and> length (patch ed') = 30
       \<and> b_target (branches ed' ! 0) = b_target (branches example_editor ! 0) + 22
       \<and> b_opcode (branches ed' ! 0) = 114)
   \<and> b_target (Branch_adjust (branches example_editor ! 0) 6 22) = 6
   \<and> b_offset (Branch_adjust (branches example_editor ! 0) 2 22) = 24"
proof -
  let ?ed' = "example_editor
        \<lparr>branches := [\<lparr>b_offset = 24, b_length = 2, b_opcode = 114, b_is_relative = True,
                        b_is_backward = False, b_target = 28\<rparr>],
         lines := [\<lparr>l_start = 0, l_end = 30, l_number = Some 1\<rparr>],
         patch := [9, 10, 2, 0, 100, 1, 166, 0, 0, 0, 171, 0, 0, 0, 0, 0, 0, 0, 0, 0, 1, 0,
                   100, 0, 114, 1, 100, 1, 83, 0],
         max_addtl_stack := 2\<rparr>"
  note t6 = Branch_adjust_boundaries
              [of "branches example_editor ! 0" 6 22 python_3_11 example_editor 1 "[]" 22 ?ed']
  note t2 = Branch_adjust_boundaries
              [of "branches example_editor ! 0" 2 22 python_3_11 example_editor 1 "[]" 22 ?ed']
  have fwd: "0 < length (branches example_editor)"
    "0 \<le> b_offset (branches example_editor ! 0)"
    "b_offset (branches example_editor ! 0) < b_target (branches example_editor ! 0)"
    "b_target (branches example_editor ! 0) = 6" "b_offset (branches example_editor ! 0) = 2"
    "b_opcode (branches example_editor ! 0) = 114"
    "length (patch example_editor) = 8"
    by (simp_all add: example_editor_def)
  from t6 example_insert fwd
  have "length (patch ?ed') = 30
       \<and> b_target (branches ?ed' ! 0) = b_target (branches example_editor ! 0) + 22
       \<and> b_opcode (branches ?ed' ! 0) = 114" by simp
  moreover from t6 fwd have "b_target (Branch_adjust (branches example_editor ! 0) 6 22) = 6"
    by simp
  moreover from t2 fwd have "b_offset (Branch_adjust (branches example_editor ! 0) 2 22) = 24"
    by simp
  ultimately show ?thesis using example_insert by blast
qed

section \<open>The editor after \<^verbatim>\<open>finish\<close>\<close>












section \<open>Bit lengths\<close>

lemma bit_length_nat_0 [simp]: "bit_length_nat 0 = 0"
  by (subst bit_length_nat.simps) simp

lemma bit_length_nat_pos: "0 < n \<Longrightarrow> bit_length_nat n = Suc (bit_length_nat (n div 2))"
  by (subst bit_length_nat.simps) simp

lemma bit_length_nat_upper: "n < 2 ^ bit_length_nat n"
proof (induction n rule: bit_length_nat.induct)
  case (1 n)
  show ?case
  proof (cases "n = 0")
    case True
    then show ?thesis by simp
  next
    case False
    with 1 have "n div 2 < 2 ^ bit_length_nat (n div 2)" by simp
    then have "n < 2 * 2 ^ bit_length_nat (n div 2)" by linarith
    with False show ?thesis by (simp add: bit_length_nat_pos)
  qed
qed

lemma bit_length_nat_le: "n < 2 ^ m \<Longrightarrow> bit_length_nat n \<le> m"
proof (induction n arbitrary: m rule: bit_length_nat.induct)
  case (1 n)
  show ?case
  proof (cases "n = 0")
    case True
    then show ?thesis by simp
  next
    case False
    with 1(2) obtain m' where m: "m = Suc m'" by (cases m) auto
    with 1(2) have "n div 2 < 2 ^ m'" by auto
    with 1(1) False have "bit_length_nat (n div 2) \<le> m'" by simp
    with False m show ?thesis by (simp add: bit_length_nat_pos)
  qed
qed

lemma bit_length_nat_lower: "0 < n \<Longrightarrow> 2 ^ (bit_length_nat n - 1) \<le> n"
proof (induction n rule: bit_length_nat.induct)
  case (1 n)
  show ?case
  proof (cases "n div 2 = 0")
    case True
    with 1(2) have "n = 1" by (auto simp: div_eq_0_iff)
    then show ?thesis by (simp add: bit_length_nat_pos)
  next
    case False
    with 1 have "2 ^ (bit_length_nat (n div 2) - 1) \<le> n div 2" by simp
    moreover from False have "bit_length_nat (n div 2) = Suc (bit_length_nat (n div 2) - 1)"
      by (simp add: bit_length_nat_pos)
    ultimately have "2 ^ bit_length_nat (n div 2) \<le> 2 * (n div 2)"
      by (metis power_Suc mult_le_mono2)
    also have "\<dots> \<le> n" by simp
    finally show ?thesis using 1(2) by (simp add: bit_length_nat_pos)
  qed
qed

lemma bit_length_le: "0 \<le> n \<Longrightarrow> n < 2 ^ m \<Longrightarrow> bit_length n \<le> int m"
proof -
  assume "0 \<le> n" "n < 2 ^ m"
  then have "nat n < 2 ^ m" by (simp add: nat_less_iff)
  then have "bit_length_nat (nat n) \<le> m" by (rule bit_length_nat_le)
  with \<open>0 \<le> n\<close> show ?thesis by (simp add: bit_length_def)
qed

lemma bit_length_upper: "0 \<le> n \<Longrightarrow> n < 2 ^ nat (bit_length n)"
proof -
  assume "0 \<le> n"
  have "nat n < 2 ^ bit_length_nat (nat n)" by (rule bit_length_nat_upper)
  with \<open>0 \<le> n\<close> show ?thesis by (simp add: bit_length_def nat_less_iff)
qed

lemma bit_length_lower: "0 < n \<Longrightarrow> 2 ^ nat (bit_length n - 1) \<le> n"
proof -
  assume "0 < n"
  then have "0 < nat n" by simp
  then have "2 ^ (bit_length_nat (nat n) - 1) \<le> nat n" by (rule bit_length_nat_lower)
  then have "int (2 ^ (bit_length_nat (nat n) - 1)) \<le> int (nat n)" by (simp only: of_nat_le_iff)
  with \<open>0 < n\<close> have "(2::int) ^ (bit_length_nat (nat n) - 1) \<le> n" by simp
  moreover from \<open>0 < n\<close> have "nat (bit_length n - 1) = bit_length_nat (nat n) - 1"
    by (simp add: bit_length_def nat_diff_distrib')
  ultimately show ?thesis by simp
qed

lemma bit_length_nonneg [simp]: "0 \<le> bit_length n"
  by (simp add: bit_length_def)

lemma bit_length_0 [simp]: "bit_length 0 = 0"
  by (simp add: bit_length_def)

lemma bit_length_pos: "0 < n \<Longrightarrow> 0 < bit_length n"
  by (simp add: bit_length_def bit_length_nat_pos)

text \<open>Rules that let the simplifier compute the bit length of a numeral.\<close>

lemma bit_length_nat_Bit0 [simp]:
  "bit_length_nat (numeral (Num.Bit0 k)) = Suc (bit_length_nat (numeral k))"
  by (subst bit_length_nat.simps) simp

lemma bit_length_nat_Bit1 [simp]:
  "bit_length_nat (numeral (Num.Bit1 k)) = Suc (bit_length_nat (numeral k))"
  by (subst bit_length_nat.simps) simp

lemma bit_length_nat_One [simp]: "bit_length_nat (numeral Num.One) = 1"
  by (simp add: bit_length_nat_pos)

lemma bit_length_nat_1 [simp]: "bit_length_nat 1 = 1" "bit_length_nat (Suc 0) = 1"
  by (simp_all add: bit_length_nat_pos)

section \<open>Six-bit chunks\<close>

lemma and_63: "(x::int) AND 63 = take_bit 6 x"
  by (simp add: take_bit_eq_mask mask_eq_exp_minus_1)

lemma and_255: "(x::int) AND 255 = take_bit 8 x"
  by (simp add: take_bit_eq_mask mask_eq_exp_minus_1)

lemma bit_64: "bit (64::int) n \<longleftrightarrow> n = 6"
proof -
  have "(64::int) = 2 ^ 6" by simp
  then show ?thesis by (simp only: bit_exp_iff) auto
qed

lemma bit_128: "bit (128::int) n \<longleftrightarrow> n = 7"
proof -
  have "(128::int) = 2 ^ 7" by simp
  then show ?thesis by (simp only: bit_exp_iff) auto
qed

lemma cont_flag: "(64 OR take_bit 6 (x::int)) AND 64 \<noteq> 0"
proof -
  have "bit ((64 OR take_bit 6 x) AND (64::int)) 6"
    by (simp add: bit_simps bit_64)
  then show ?thesis by auto
qed

lemma cont_low: "(64 OR take_bit 6 (x::int)) AND 63 = take_bit 6 x"
  unfolding and_63 by (rule bit_eqI) (auto simp: bit_simps bit_64)

lemma last_flag: "take_bit 6 (x::int) AND 64 = 0"
  by (rule bit_eqI) (auto simp: bit_simps bit_64)

lemma mark_flag: "(y OR 128) AND 64 = (y::int) AND 64"
  by (rule bit_eqI) (auto simp: bit_simps bit_64 bit_128)

lemma mark_low: "(y OR 128) AND 63 = (y::int) AND 63"
  unfolding and_63 by (rule bit_eqI) (auto simp: bit_simps bit_128)

lemma be_step: "push_bit m (take_bit 6 (drop_bit m (n::int))) OR take_bit m n = take_bit (m + 6) n"
  by (rule bit_eqI) (auto simp: bit_simps)

lemma le_step: "push_bit s (take_bit 6 (n::int)) OR push_bit (s + 6) (drop_bit 6 n) = push_bit s n"
proof (rule bit_eqI)
  fix k
  show "bit (push_bit s (take_bit 6 n) OR push_bit (s + 6) (drop_bit 6 n)) k
        = bit (push_bit s n) k"
  proof (cases "6 \<le> k - s")
    case True
    then have "6 + (k - (s + 6)) = k - s" "s + 6 \<le> k" "s \<le> k" by simp_all
    with True show ?thesis by (auto simp: bit_simps)
  next
    case False
    then show ?thesis by (auto simp: bit_simps)
  qed
qed

section \<open>Variable-length integers: what is written is read back\<close>

lemma range_down6_nonpos: "s \<le> 0 \<Longrightarrow> range_down6 s = []"
  by (subst range_down6.simps) simp

lemma range_down6_pos: "0 < s \<Longrightarrow> range_down6 s = s # range_down6 (s - 6)"
  by (subst range_down6.simps) simp

lemma length_range_down6: "length (range_down6 (6 * int k)) = k"
  by (induction k) (simp_all add: range_down6_nonpos range_down6_pos algebra_simps)

lemma cont_low_take: "take_bit 6 (64 OR take_bit 6 (x::int)) = take_bit 6 x"
  using cont_low [of x] by (simp add: and_63)

lemma read_be_cont:
  "read_varint_be_loop v ((64 OR (drop_bit m n AND 63)) # xs)
   = read_varint_be_loop (push_bit 6 (v OR take_bit 6 (drop_bit m n))) xs"
  by (simp only: and_63 read_varint_be_loop.simps cont_flag cont_low_take) simp

lemma read_be_last:
  "read_varint_be_loop v ((n AND 63) # rest) = Some (v OR take_bit 6 n, rest)"
  by (simp only: and_63 read_varint_be_loop.simps last_flag) simp

lemma read_be_chunks:
  "read_varint_be_loop v
     (map (\<lambda>shift. 64 OR (drop_bit (nat shift) n AND 63)) (range_down6 (6 * int k))
      @ (n AND 63) # rest)
   = Some (push_bit (6 * k) v OR take_bit (6 * Suc k) n, rest)"
proof (induction k arbitrary: v)
  case 0
  have "range_down6 (6 * int 0) = []" by (simp add: range_down6_nonpos)
  then show ?case by (simp only: list.map append_Nil read_be_last) simp
next
  case (Suc k)
  have r: "range_down6 (6 * int (Suc k)) = (6 * int (Suc k)) # range_down6 (6 * int k)"
    by (simp add: range_down6_pos algebra_simps)
  have n: "nat (6 * int (Suc k)) = 6 * k + 6" by simp
  have "read_varint_be_loop v
     (map (\<lambda>shift. 64 OR (drop_bit (nat shift) n AND 63)) (range_down6 (6 * int (Suc k)))
      @ (n AND 63) # rest)
     = read_varint_be_loop (push_bit 6 (v OR take_bit 6 (drop_bit (6 * k + 6) n)))
         (map (\<lambda>shift. 64 OR (drop_bit (nat shift) n AND 63)) (range_down6 (6 * int k))
          @ (n AND 63) # rest)"
    by (simp only: r list.map append_Cons n read_be_cont)
  also have "\<dots> = Some (push_bit (6 * k) (push_bit 6 (v OR take_bit 6 (drop_bit (6 * k + 6) n)))
                         OR take_bit (6 * Suc k) n, rest)"
    by (rule Suc.IH)
  also have "push_bit (6 * k) (push_bit 6 (v OR take_bit 6 (drop_bit (6 * k + 6) n)))
          OR take_bit (6 * Suc k) n
        = push_bit (6 * k + 6) v
          OR (push_bit (6 * k + 6) (take_bit 6 (drop_bit (6 * k + 6) n))
              OR take_bit (6 * k + 6) n)"
    by (simp add: ac_simps)
  also have "\<dots> = push_bit (6 * Suc k) v OR take_bit (6 * Suc (Suc k)) n"
    by (simp only: be_step) (simp add: algebra_simps)
  finally show ?case .
qed

lemma be_shifts:
  "0 \<le> n \<Longrightarrow>
   range_down6 ((bit_length n - 1) - (bit_length n - 1) mod 6)
     = range_down6 (6 * int (nat ((bit_length n - 1) div 6)))"
proof (cases "n = 0")
  case True
  then show ?thesis by (simp add: range_down6_nonpos)
next
  case False
  assume "0 \<le> n"
  with False have "0 < bit_length n" by (simp add: bit_length_pos)
  then have "0 \<le> (bit_length n - 1) div 6" by simp
  moreover have "(bit_length n - 1) - (bit_length n - 1) mod 6 = 6 * ((bit_length n - 1) div 6)"
    by (simp add: minus_mod_eq_mult_div)
  ultimately show ?thesis by simp
qed

lemma be_fits: "0 \<le> n \<Longrightarrow> n < 2 ^ (6 * Suc (nat ((bit_length n - 1) div 6)))"
proof -
  assume n: "0 \<le> n"
  have "(bit_length n - 1) mod 6 < 6" by simp
  moreover have "bit_length n - 1 = 6 * ((bit_length n - 1) div 6) + (bit_length n - 1) mod 6"
    by simp
  ultimately have "bit_length n - 1 < 6 * ((bit_length n - 1) div 6) + 6" by linarith
  then have "nat (bit_length n) \<le> 6 * Suc (nat ((bit_length n - 1) div 6))"
    by (cases "0 \<le> (bit_length n - 1) div 6") (auto simp: nat_le_iff)
  then have "(2::int) ^ nat (bit_length n) \<le> 2 ^ (6 * Suc (nat ((bit_length n - 1) div 6)))"
    by (rule power_increasing) simp
  with bit_length_upper [OF n] show ?thesis by linarith
qed

lemma write_varint_be_None:
  "write_varint_be n None
   = Inr (map (\<lambda>shift. 64 OR (drop_bit (nat shift) n AND 63))
            (range_down6 ((bit_length n - 1) - (bit_length n - 1) mod 6)) @ [n AND 63])"
  by (simp add: write_varint_be_def Let_def)

lemma read_write_varint_be_None:
  assumes "0 \<le> n"
  shows "\<exists>w. write_varint_be n None = Inr w \<and> read_varint_be (w @ rest) = Some (n, rest)"
proof -
  let ?k = "nat ((bit_length n - 1) div 6)"
  let ?w = "map (\<lambda>shift. 64 OR (drop_bit (nat shift) n AND 63)) (range_down6 (6 * int ?k))
            @ [n AND 63]"
  have "write_varint_be n None = Inr ?w"
    by (simp only: write_varint_be_None be_shifts [OF assms])
  moreover have "read_varint_be (?w @ rest) = Some (take_bit (6 * Suc ?k) n, rest)"
    using read_be_chunks [of 0 n ?k rest] by (simp add: read_varint_be_def)
  moreover have "take_bit (6 * Suc ?k) n = n"
    using assms be_fits [OF assms] by (simp add: take_bit_int_eq_self)
  ultimately show ?thesis by auto
qed

declare read_varint_be_loop.simps [simp del]

lemma read_be_mark:
  "read_varint_be_loop v ((b OR 128) # xs) = read_varint_be_loop v (b # xs)"
  by (simp only: read_varint_be_loop.simps mark_flag mark_low)

lemma chunk_range: "0 \<le> 64 OR take_bit 6 (x::int) \<and> 64 OR take_bit 6 x < 128"
proof -
  have "take_bit 6 x < (2::int) ^ 6" by (rule take_bit_int_less_exp)
  then have "take_bit 6 x < (2::int) ^ 7" by simp
  then have "64 OR take_bit 6 x < (2::int) ^ 7" by (intro OR_upper) simp_all
  then show ?thesis by simp
qed

lemma last_range: "0 \<le> take_bit 6 (x::int) \<and> take_bit 6 x < 128"
proof -
  have "take_bit 6 x < (2::int) ^ 6" by (rule take_bit_int_less_exp)
  then show ?thesis by simp
qed

lemma mark_range: "0 \<le> (b::int) \<Longrightarrow> b < 128 \<Longrightarrow> is_byte (b OR 128)"
proof -
  assume "0 \<le> b" "b < 128"
  then have "b OR 128 < (2::int) ^ 8" by (intro OR_upper) simp_all
  with \<open>0 \<le> b\<close> show ?thesis by (simp add: is_byte_def)
qed

lemma read_write_varint_be_mark:
  assumes "0 \<le> n"
  shows "\<exists>w. write_varint_be n (Some 128) = Inr w
             \<and> read_varint_be (w @ rest) = Some (n, rest)"
proof -
  let ?w = "map (\<lambda>shift. 64 OR (drop_bit (nat shift) n AND 63))
              (range_down6 ((bit_length n - 1) - (bit_length n - 1) mod 6)) @ [n AND 63]"
  from read_write_varint_be_None [OF assms, of rest]
  have rd: "read_varint_be (?w @ rest) = Some (n, rest)"
    by (simp add: write_varint_be_None)
  obtain b tl where w: "?w = b # tl" by (cases ?w) auto
  have "list_all (\<lambda>b. 0 \<le> b \<and> b < 128) ?w"
    by (simp add: list_all_iff and_63 chunk_range last_range)
  with w have b: "0 \<le> b" "b < 128" by simp_all
  have "write_varint_be n (Some 128) = set_item ?w 0 (?w ! 0 OR 128)"
    by (simp add: write_varint_be_def Let_def)
  also have "\<dots> = Inr ((b OR 128) # tl)"
    using mark_range [OF b] by (simp only: w) (simp add: set_item_def item_index_def)
  finally have wr: "write_varint_be n (Some 128) = Inr ((b OR 128) # tl)" .
  from rd have "read_varint_be (((b OR 128) # tl) @ rest) = Some (n, rest)"
    by (simp only: w read_varint_be_def append_Cons read_be_mark)
  with wr show ?thesis by blast
qed

lemma append_varint_small: "n \<le> 63 \<Longrightarrow> append_varint data n = data @ [n]"
  by (subst append_varint.simps) simp

lemma append_varint_big:
  "63 < n \<Longrightarrow> append_varint data n
               = append_varint (data @ [64 OR (n AND 63)]) (drop_bit 6 n)"
  by (subst append_varint.simps) simp

lemma read_le_cont:
  "read_varint_le_loop v s ((64 OR (n AND 63)) # xs)
   = read_varint_le_loop (v OR push_bit s (take_bit 6 n)) (s + 6) xs"
  by (simp only: and_63 read_varint_le_loop.simps cont_flag cont_low_take) simp

lemma read_le_last:
  "0 \<le> n \<Longrightarrow> n \<le> 63 \<Longrightarrow> read_varint_le_loop v s (n # rest) = Some (v OR push_bit s n, rest)"
proof -
  assume "0 \<le> n" "n \<le> 63"
  then have t: "take_bit 6 n = n" by (simp add: take_bit_int_eq_self)
  have "read_varint_le_loop v s (take_bit 6 n # rest) = Some (v OR push_bit s (take_bit 6 n), rest)"
    by (simp only: and_63 read_varint_le_loop.simps last_flag) simp
  then show ?thesis by (simp only: t)
qed

declare read_varint_le_loop.simps [simp del]

lemma append_varint_decodes:
  "0 \<le> n \<Longrightarrow>
   \<exists>enc. append_varint data n = data @ enc
        \<and> (\<forall>v s rest. read_varint_le_loop v s (enc @ rest) = Some (v OR push_bit s n, rest))"
proof (induction data n rule: append_varint.induct)
  case (1 data n)
  show ?case
  proof (cases "63 < n")
    case False
    with 1(2) show ?thesis
      by (intro exI [of _ "[n]"]) (simp add: append_varint_small read_le_last)
  next
    case True
    then have "0 \<le> drop_bit 6 n" by simp
    with 1(1) True obtain enc where
      e: "append_varint (data @ [64 OR (n AND 63)]) (drop_bit 6 n)
            = (data @ [64 OR (n AND 63)]) @ enc"
      and r: "\<And>v s rest. read_varint_le_loop v s (enc @ rest)
                = Some (v OR push_bit s (drop_bit 6 n), rest)"
      by auto
    have "append_varint data n = data @ ((64 OR (n AND 63)) # enc)"
      using True e by (simp add: append_varint_big)
    moreover have "read_varint_le_loop v s (((64 OR (n AND 63)) # enc) @ rest)
                   = Some (v OR push_bit s n, rest)" for v s rest
    proof -
      have "read_varint_le_loop v s (((64 OR (n AND 63)) # enc) @ rest)
            = Some ((v OR push_bit s (take_bit 6 n)) OR push_bit (s + 6) (drop_bit 6 n), rest)"
        by (simp only: append_Cons read_le_cont r)
      also have "(v OR push_bit s (take_bit 6 n)) OR push_bit (s + 6) (drop_bit 6 n)
                 = v OR push_bit s n"
        by (simp only: or.assoc le_step)
      finally show ?thesis .
    qed
    ultimately show ?thesis by blast
  qed
qed

lemma read_append_varint:
  "0 \<le> n \<Longrightarrow> read_varint_le (append_varint [] n @ rest) = Some (n, rest)"
proof -
  assume "0 \<le> n"
  from append_varint_decodes [OF this, of "[]"] obtain enc where
    "append_varint [] n = enc"
    "\<And>v s rest. read_varint_le_loop v s (enc @ rest) = Some (v OR push_bit s n, rest)"
    by auto
  then show ?thesis by (simp add: read_varint_le_def)
qed

lemma bit_length_gt_iff: "0 \<le> n \<Longrightarrow> int m < bit_length n \<longleftrightarrow> 2 ^ m \<le> n"
proof
  assume n: "0 \<le> n" and "int m < bit_length n"
  then have pos: "0 < n" by (cases "n = 0") auto
  from \<open>int m < bit_length n\<close> have "m \<le> nat (bit_length n - 1)" by simp
  then have "(2::int) ^ m \<le> 2 ^ nat (bit_length n - 1)" by (rule power_increasing) simp
  with bit_length_lower [OF pos] show "2 ^ m \<le> n" by linarith
next
  assume n: "0 \<le> n" and le: "2 ^ m \<le> n"
  show "int m < bit_length n"
  proof (rule ccontr)
    assume "\<not> int m < bit_length n"
    then have "nat (bit_length n) \<le> m" by simp
    then have "(2::int) ^ nat (bit_length n) \<le> 2 ^ m" by (rule power_increasing) simp
    with bit_length_upper [OF n] le show False by linarith
  qed
qed

lemma length_append_varint_ge: "length data < length (append_varint data n)"
proof (induction data n rule: append_varint.induct)
  case (1 data n)
  show ?case
  proof (cases "63 < n")
    case True
    with 1 show ?thesis by (simp add: append_varint_big)
  next
    case False
    then show ?thesis by (simp add: append_varint_small)
  qed
qed

lemma length_append_varint_3:
  assumes "0 \<le> n"
  shows "length (append_varint [] n) = 3 \<longleftrightarrow> 4096 \<le> n \<and> n < 262144"
proof -
  have d1: "drop_bit 6 n = n div 64" by (simp add: drop_bit_eq_div)
  have d2: "drop_bit 6 (n div 64) = n div 4096" by (simp add: drop_bit_eq_div div_mult2_eq)
  have d3: "drop_bit 6 (n div 4096) = n div 262144" by (simp add: drop_bit_eq_div div_mult2_eq)
  consider "n \<le> 63" | "63 < n" "n < 4096" | "4096 \<le> n" "n < 262144" | "262144 \<le> n"
    by linarith
  then show ?thesis
  proof cases
    case 1
    then show ?thesis by (simp add: append_varint_small)
  next
    case 2
    then have "n div 64 \<le> 63" by simp
    with 2 show ?thesis by (simp add: append_varint_big d1 append_varint_small)
  next
    case 3
    then have "63 < n" "63 < n div 64" "n div 4096 \<le> 63" by simp_all
    with 3 show ?thesis by (simp add: append_varint_big d1 d2 append_varint_small)
  next
    case 4
    then have b: "63 < n" "63 < n div 64" "63 < n div 4096" by simp_all
    have "3 < length (append_varint [] n)"
      using length_append_varint_ge
              [of "[64 OR (n AND 63), 64 OR (n div 64 AND 63), 64 OR (n div 4096 AND 63)]"
                  "n div 262144"]
      by (simp add: append_varint_big b d1 d2 d3)
    with 4 show ?thesis by simp
  qed
qed

lemma length_write_varint_be_3:
  assumes "0 \<le> n" "write_varint_be n None = Inr w"
  shows "length w = 3 \<longleftrightarrow> 4096 \<le> n \<and> n < 262144"
proof -
  let ?k = "nat ((bit_length n - 1) div 6)"
  from assms(2)
  have "w = map (\<lambda>shift. 64 OR (drop_bit (nat shift) n AND 63)) (range_down6 (6 * int ?k))
            @ [n AND 63]"
    by (simp only: write_varint_be_None be_shifts [OF assms(1)] sum.inject)
  then have "length w = Suc ?k"
    by (simp only: length_append length_map length_range_down6) simp
  then have "length w = 3 \<longleftrightarrow> (bit_length n - 1) div 6 = 2" by auto
  also have "\<dots> \<longleftrightarrow> int 12 < bit_length n \<and> \<not> int 18 < bit_length n" by auto
  also have "\<dots> \<longleftrightarrow> 2 ^ 12 \<le> n \<and> \<not> 2 ^ 18 \<le> n"
    by (simp only: bit_length_gt_iff [OF assms(1)])
  finally show ?thesis by auto
qed

text \<open>
  Claim C9, amended. Every integer \<open>n \<ge> 0\<close> is read back from what is written for it:
  \<^verbatim>\<open>read_varint_be\<close> returns \<open>n\<close> on the bytes of \<^verbatim>\<open>write_varint_be(n)\<close>, and the
  little-endian decoder returns \<open>n\<close> on the bytes of \<^verbatim>\<open>append_varint\<close>, each consuming
  all of them. The values written in three six-bit chunks are those of
  \<open>4096 \<le> n < 262144\<close>, in both byte orders; 1,000,000 is not one of them (it takes
  four chunks) and is read back all the same.
\<close>

theorem varint_round_trip:
  assumes "0 \<le> n"
  shows "(\<exists>w. write_varint_be n None = Inr w \<and> read_varint_be w = Some (n, [])
               \<and> (length w = 3 \<longleftrightarrow> 4096 \<le> n \<and> n < 262144))
         \<and> read_varint_le (append_varint [] n) = Some (n, [])
         \<and> (length (append_varint [] n) = 3 \<longleftrightarrow> 4096 \<le> n \<and> n < 262144)"
proof -
  from read_write_varint_be_None [OF assms, of "[]"] obtain w where
    w: "write_varint_be n None = Inr w" "read_varint_be w = Some (n, [])" by auto
  from length_write_varint_be_3 [OF assms w(1)] w
  have "\<exists>w. write_varint_be n None = Inr w \<and> read_varint_be w = Some (n, [])
               \<and> (length w = 3 \<longleftrightarrow> 4096 \<le> n \<and> n < 262144)" by blast
  moreover from read_append_varint [OF assms, of "[]"]
  have "read_varint_le (append_varint [] n) = Some (n, [])" by simp
  ultimately show ?thesis using length_append_varint_3 [OF assms] by blast
qed

lemma append_varint_1000000: "append_varint [] 1000000 = [64, 73, 116, 3]"
  by (simp add: append_varint_big append_varint_small drop_bit_eq_div and_63 take_bit_eq_mod)

lemma write_varint_be_1000000: "write_varint_be 1000000 None = Inr [67, 116, 73, 0]"
  by (simp add: write_varint_be_None bit_length_def range_down6_pos range_down6_nonpos
                drop_bit_eq_div and_63 take_bit_eq_mod)

text \<open>
  Claim C9 as stated names 1,000,000 as a value of three six-bit chunks. Both encoders
  write four chunks for it.
\<close>

theorem varint_1000000_four_chunks:
  "append_varint [] 1000000 = [64, 73, 116, 3]
   \<and> write_varint_be 1000000 None = Inr [67, 116, 73, 0]
   \<and> length (append_varint [] 1000000) \<noteq> 3"
  by (simp add: append_varint_1000000 write_varint_be_1000000)

theorem varint_round_trip_witness:
  "(\<exists>w. write_varint_be 5000 None = Inr w \<and> read_varint_be w = Some (5000, [])
        \<and> length w = 3)
   \<and> read_varint_le (append_varint [] 5000) = Some (5000, [])
   \<and> length (append_varint [] 5000) = 3
   \<and> (\<exists>w. write_varint_be 1000000 None = Inr w \<and> read_varint_be w = Some (1000000, [])
          \<and> length w \<noteq> 3)
   \<and> read_varint_le (append_varint [] 1000000) = Some (1000000, [])"
proof -
  have a: "(0::int) \<le> 5000" and b: "(0::int) \<le> 1000000" by simp_all
  from varint_round_trip [OF a] varint_round_trip [OF b] show ?thesis by simp
qed

section \<open>The exception table: decoding what was encoded\<close>

lemma write_varint_be_reads:
  assumes "0 \<le> n" "mark = None \<or> mark = Some 128"
  shows "\<exists>w. write_varint_be n mark = Inr w
             \<and> (\<forall>rest. read_varint_be (w @ rest) = Some (n, rest))"
proof -
  from assms(2) read_write_varint_be_None [OF assms(1), of "[]"]
       read_write_varint_be_mark [OF assms(1), of "[]"]
  obtain w where w: "write_varint_be n mark = Inr w" by auto
  have "read_varint_be (w @ rest) = Some (n, rest)" for rest
    using assms(2) w read_write_varint_be_None [OF assms(1), of rest]
          read_write_varint_be_mark [OF assms(1), of rest]
    by auto
  with w show ?thesis by blast
qed

lemma offset2branch_even:
  assumes "even x" "0 \<le> x"
  shows "\<exists>a. offset2branch env x = Inr a \<and> branch2offset env a = x \<and> 0 \<le> a"
  using assms by (auto simp: offset2branch_def branch2offset_def)

lemma from_code_loop_empty: "ExceptionTableEntry_from_code_loop env [] acc = acc"
  by (subst ExceptionTableEntry_from_code_loop.simps)
     (simp add: read_varint_be_def read_varint_be_loop.simps)

lemma exception_entry_coding:
  assumes "even (e_start e)" "even (e_end e)" "even (e_target e)"
    "0 \<le> e_start e" "e_start e \<le> e_end e" "0 \<le> e_target e" "0 \<le> e_other e"
  shows "\<exists>w. (\<forall>table es. make_exceptiontable_loop env table (e # es)
                          = make_exceptiontable_loop env (table @ w) es)
           \<and> (\<forall>rest acc. ExceptionTableEntry_from_code_loop env (w @ rest) acc
                          = ExceptionTableEntry_from_code_loop env rest (acc @ [e]))"
proof -
  from assms have len: "even (e_end e - e_start e)" "0 \<le> e_end e - e_start e" by simp_all
  from offset2branch_even [OF assms(1) assms(4), of env] obtain a where
    a: "offset2branch env (e_start e) = Inr a" "branch2offset env a = e_start e" "0 \<le> a"
    by blast
  from offset2branch_even [OF len, of env] obtain l where
    l: "offset2branch env (e_end e - e_start e) = Inr l"
       "branch2offset env l = e_end e - e_start e" "0 \<le> l"
    by blast
  from offset2branch_even [OF assms(3) assms(6), of env] obtain t where
    t: "offset2branch env (e_target e) = Inr t" "branch2offset env t = e_target e" "0 \<le> t"
    by blast
  from write_varint_be_reads [OF a(3), of "Some 128"] obtain w1 where
    w1: "write_varint_be a (Some 128) = Inr w1"
        "\<And>rest. read_varint_be (w1 @ rest) = Some (a, rest)" by auto
  from write_varint_be_reads [OF l(3), of None] obtain w2 where
    w2: "write_varint_be l None = Inr w2"
        "\<And>rest. read_varint_be (w2 @ rest) = Some (l, rest)" by auto
  from write_varint_be_reads [OF t(3), of None] obtain w3 where
    w3: "write_varint_be t None = Inr w3"
        "\<And>rest. read_varint_be (w3 @ rest) = Some (t, rest)" by auto
  from write_varint_be_reads [OF assms(7), of None] obtain w4 where
    w4: "write_varint_be (e_other e) None = Inr w4"
        "\<And>rest. read_varint_be (w4 @ rest) = Some (e_other e, rest)" by auto
  have enc: "make_exceptiontable_loop env table (e # es)
             = make_exceptiontable_loop env (table @ w1 @ w2 @ w3 @ w4) es" for table es
    by (simp add: bindE_def a(1) l(1) t(1) w1(1) w2(1) w3(1) w4(1))
  have e: "\<lparr>e_start = branch2offset env a,
            e_end = branch2offset env a + branch2offset env l,
            e_target = branch2offset env t, e_other = e_other e\<rparr> = e"
    by (simp add: a(2) l(2) t(2))
  have dec: "ExceptionTableEntry_from_code_loop env ((w1 @ w2 @ w3 @ w4) @ rest) acc
             = ExceptionTableEntry_from_code_loop env rest (acc @ [e])" for rest acc
    by (subst ExceptionTableEntry_from_code_loop.simps)
       (simp add: w1(2) w2(2) w3(2) w4(2) e)
  from enc dec show ?thesis by blast
qed

lemma exception_table_coding:
  assumes "list_all (\<lambda>e. even (e_start e) \<and> even (e_end e) \<and> even (e_target e)
                         \<and> 0 \<le> e_start e \<and> e_start e \<le> e_end e
                         \<and> 0 \<le> e_target e \<and> 0 \<le> e_other e) es"
  shows "\<exists>enc. (\<forall>table. make_exceptiontable_loop env table es = Inr (table @ enc))
             \<and> (\<forall>acc. ExceptionTableEntry_from_code_loop env enc acc = acc @ es)"
  using assms
proof (induction es)
  case Nil
  show ?case by (intro exI [of _ "[]"]) (simp add: from_code_loop_empty)
next
  case (Cons e es)
  then obtain enc where
    enc: "\<And>table. make_exceptiontable_loop env table es = Inr (table @ enc)"
         "\<And>acc. ExceptionTableEntry_from_code_loop env enc acc = acc @ es"
    by auto
  from Cons.prems exception_entry_coding [of e env] obtain w where
    w: "\<And>table es. make_exceptiontable_loop env table (e # es)
                      = make_exceptiontable_loop env (table @ w) es"
       "\<And>rest acc. ExceptionTableEntry_from_code_loop env (w @ rest) acc
                      = ExceptionTableEntry_from_code_loop env rest (acc @ [e])"
    by auto
  have "make_exceptiontable_loop env table (e # es) = Inr (table @ w @ enc)" for table
    by (simp only: w(1) enc(1) append_assoc)
  moreover have "ExceptionTableEntry_from_code_loop env (w @ enc) acc = acc @ e # es" for acc
    by (simp add: w(2) enc(2))
  ultimately show ?case by blast
qed

text \<open>
  Claim C5. For every list of entries with even, non-negative \<open>start\<close>, \<open>end\<close> and
  \<open>target\<close>, \<open>start \<le> end\<close> and non-negative \<open>other\<close>, \<^verbatim>\<open>make_exceptiontable\<close>
  returns a table \<open>t\<close>; the loop of \<^verbatim>\<open>ExceptionTableEntry.from_code\<close> reads the same
  entries back from \<open>t\<close>, and encoding what it reads gives \<open>t\<close> again, byte for byte.
  This holds for either unit of the branch operands.
\<close>

theorem exception_table_round_trip:
  assumes "list_all (\<lambda>e. even (e_start e) \<and> even (e_end e) \<and> even (e_target e)
                         \<and> 0 \<le> e_start e \<and> e_start e \<le> e_end e
                         \<and> 0 \<le> e_target e \<and> 0 \<le> e_other e) es"
  shows "\<exists>t. make_exceptiontable env es = Inr t
             \<and> ExceptionTableEntry_from_code env t = es
             \<and> make_exceptiontable env (ExceptionTableEntry_from_code env t) = Inr t"
proof -
  from exception_table_coding [OF assms, of env] obtain enc where
    "\<And>table. make_exceptiontable_loop env table es = Inr (table @ enc)"
    "\<And>acc. ExceptionTableEntry_from_code_loop env enc acc = acc @ es"
    by auto
  then have "make_exceptiontable env es = Inr enc"
    "ExceptionTableEntry_from_code env enc = es"
    by (simp_all add: make_exceptiontable_def ExceptionTableEntry_from_code_def)
  then show ?thesis by auto
qed

lemma example_exceptiontable:
  "make_exceptiontable python_3_11
     [\<lparr>e_start = 4, e_end = 20, e_target = 20, e_other = 1\<rparr>,
      \<lparr>e_start = 22, e_end = 200, e_target = 1000, e_other = 5\<rparr>]
   = Inr [130, 8, 10, 1, 139, 65, 25, 71, 52, 5]"
  by code_simp

theorem exception_table_round_trip_witness:
  "make_exceptiontable python_3_11
     [\<lparr>e_start = 4, e_end = 20, e_target = 20, e_other = 1\<rparr>,
      \<lparr>e_start = 22, e_end = 200, e_target = 1000, e_other = 5\<rparr>]
   = Inr [130, 8, 10, 1, 139, 65, 25, 71, 52, 5]
   \<and> ExceptionTableEntry_from_code python_3_11 [130, 8, 10, 1, 139, 65, 25, 71, 52, 5]
     = [\<lparr>e_start = 4, e_end = 20, e_target = 20, e_other = 1\<rparr>,
        \<lparr>e_start = 22, e_end = 200, e_target = 1000, e_other = 5\<rparr>]
   \<and> make_exceptiontable python_3_11
       (ExceptionTableEntry_from_code python_3_11 [130, 8, 10, 1, 139, 65, 25, 71, 52, 5])
     = Inr [130, 8, 10, 1, 139, 65, 25, 71, 52, 5]"
proof -
  let ?es = "[\<lparr>e_start = 4, e_end = 20, e_target = 20, e_other = 1\<rparr>,
              \<lparr>e_start = 22, e_end = 200, e_target = 1000, e_other = 5\<rparr>]"
  have v: "list_all (\<lambda>e. even (e_start e) \<and> even (e_end e) \<and> even (e_target e)
                         \<and> 0 \<le> e_start e \<and> e_start e \<le> e_end e
                         \<and> 0 \<le> e_target e \<and> 0 \<le> e_other e) ?es"
    by simp
  from exception_table_round_trip [OF v, of python_3_11] example_exceptiontable
  show ?thesis by auto
qed

section \<open>A branch, encoded and decoded\<close>

lemma arg_ext_fits:
  assumes "0 \<le> a" "arg_ext_needed a \<le> int k"
  shows "a < 2 ^ (8 * Suc k)"
proof -
  from assms(2) have "(bit_length a - 1) div 8 \<le> int k" by (simp add: arg_ext_needed_def)
  then have "bit_length a - 1 < 8 * int k + 8" by linarith
  then have "bit_length a \<le> int (8 * Suc k)" by simp
  then have "nat (bit_length a) \<le> 8 * Suc k" by (simp only: nat_le_iff)
  then have "(2::int) ^ nat (bit_length a) \<le> 2 ^ (8 * Suc k)" by (rule power_increasing) simp
  with bit_length_upper [OF assms(1)] show ?thesis by linarith
qed

lemma byte_join:
  "push_bit 8 (take_bit j (drop_bit (m + 8) (a::int))) OR take_bit 8 (drop_bit m a)
   = take_bit (j + 8) (drop_bit m a)"
proof (rule bit_eqI)
  fix k
  show "bit (push_bit 8 (take_bit j (drop_bit (m + 8) a)) OR take_bit 8 (drop_bit m a)) k
        = bit (take_bit (j + 8) (drop_bit m a)) k"
  proof (cases "8 \<le> k")
    case True
    then have "m + 8 + (k - 8) = m + k" by simp
    with True show ?thesis by (auto simp: bit_simps)
  next
    case False
    then show ?thesis by (auto simp: bit_simps)
  qed
qed

lemma skip_CACHE_end: "length code \<le> off + 2 \<Longrightarrow> skip_CACHE env code off = off"
  by (subst skip_CACHE.simps) simp

lemma unpack_past_end:
  "length code \<le> off \<Longrightarrow> unpack_opargs_loop env code e n off = ([], None)"
  by (subst unpack_opargs_loop.simps) simp

lemma unpack_prefix:
  assumes "off + 1 < length code" "code ! off \<in> set (is_EXTENDED_ARG env)"
    "code ! (off + 1) = x AND 255" "e' = push_bit 8 (e OR take_bit 8 x)" "off' = off + 2"
  shows "unpack_opargs_loop env code e n off = unpack_opargs_loop env code e' n off'"
  using assms by (subst unpack_opargs_loop.simps) (simp add: and_255)

lemma unpack_final:
  assumes "off + 2 = length code" "code ! off \<notin> set (is_EXTENDED_ARG env)"
    "code ! off = op" "code ! (off + 1) = x AND 255" "len = int (off + 2) - int n"
  shows "unpack_opargs_loop env code e n off
         = ([(int n, len, op, e OR take_bit 8 x)], None)"
  using assms
  by (subst unpack_opargs_loop.simps)
     (simp add: skip_CACHE_end unpack_past_end Let_def and_255)

lemma EXTENDED_ARG_is_prefix: "op_EXTENDED_ARG env \<in> set (is_EXTENDED_ARG env)"
  by (simp add: is_EXTENDED_ARG_def)

lemma join2: "push_bit 8 (take_bit 8 (drop_bit 8 (a::int))) OR take_bit 8 a = take_bit 16 a"
  using byte_join [of 8 0 a] by simp

lemma join3:
  "push_bit 8 (push_bit 8 (take_bit 8 (drop_bit 16 (a::int))) OR take_bit 8 (drop_bit 8 a))
     OR take_bit 8 a = take_bit 24 a"
  using byte_join [of 8 8 a] byte_join [of 16 0 a] by simp

lemma join4:
  "push_bit 8 (push_bit 8 (push_bit 8 (take_bit 8 (drop_bit 24 (a::int)))
                           OR take_bit 8 (drop_bit 16 a))
               OR take_bit 8 (drop_bit 8 a))
     OR take_bit 8 a = take_bit 32 a"
  using byte_join [of 8 16 a] byte_join [of 16 8 a] byte_join [of 24 0 a] by simp

lemma unpack_encoded_0:
  assumes "op \<notin> set (is_EXTENDED_ARG env)" "0 \<le> a" "a < 2 ^ 8"
  shows "unpack_opargs env [op, a AND 255] = ([(0, 2, op, a)], None)"
proof -
  have "unpack_opargs env [op, a AND 255] = ([(int 0, 2, op, 0 OR take_bit 8 a)], None)"
    unfolding unpack_opargs_def using assms(1) by (intro unpack_final) simp_all
  moreover from assms have "take_bit 8 a = a" by (simp add: take_bit_int_eq_self)
  ultimately show ?thesis by simp
qed

lemma unpack_encoded_1:
  assumes "op \<notin> set (is_EXTENDED_ARG env)" "0 \<le> a" "a < 2 ^ 16"
  shows "unpack_opargs env [op_EXTENDED_ARG env, drop_bit 8 a AND 255, op, a AND 255]
         = ([(0, 4, op, a)], None)"
proof -
  let ?c = "[op_EXTENDED_ARG env, drop_bit 8 a AND 255, op, a AND 255]"
  let ?e1 = "push_bit 8 (take_bit 8 (drop_bit 8 a))"
  have "unpack_opargs env ?c = unpack_opargs_loop env ?c ?e1 0 2"
    unfolding unpack_opargs_def
    by (rule unpack_prefix [where x = "drop_bit 8 a"]) (simp_all add: EXTENDED_ARG_is_prefix)
  also have "\<dots> = ([(int 0, 4, op, ?e1 OR take_bit 8 a)], None)"
    using assms(1) by (intro unpack_final) simp_all
  finally have "unpack_opargs env ?c = ([(0, 4, op, ?e1 OR take_bit 8 a)], None)"
    by simp
  moreover from assms have "take_bit 16 a = a" by (simp add: take_bit_int_eq_self)
  ultimately show ?thesis by (simp only: join2)
qed

lemma unpack_encoded_2:
  assumes "op \<notin> set (is_EXTENDED_ARG env)" "0 \<le> a" "a < 2 ^ 24"
  shows "unpack_opargs env [op_EXTENDED_ARG env, drop_bit 16 a AND 255,
                            op_EXTENDED_ARG env, drop_bit 8 a AND 255, op, a AND 255]
         = ([(0, 6, op, a)], None)"
proof -
  let ?c = "[op_EXTENDED_ARG env, drop_bit 16 a AND 255,
             op_EXTENDED_ARG env, drop_bit 8 a AND 255, op, a AND 255]"
  let ?e1 = "push_bit 8 (take_bit 8 (drop_bit 16 a))"
  let ?e2 = "push_bit 8 (?e1 OR take_bit 8 (drop_bit 8 a))"
  have "unpack_opargs env ?c = unpack_opargs_loop env ?c ?e1 0 2"
    unfolding unpack_opargs_def
    by (rule unpack_prefix [where x = "drop_bit 16 a"]) (simp_all add: EXTENDED_ARG_is_prefix)
  also have "\<dots> = unpack_opargs_loop env ?c ?e2 0 4"
    by (rule unpack_prefix [where x = "drop_bit 8 a"]) (simp_all add: EXTENDED_ARG_is_prefix)
  also have "\<dots> = ([(int 0, 6, op, ?e2 OR take_bit 8 a)], None)"
    using assms(1) by (intro unpack_final) simp_all
  finally have "unpack_opargs env ?c = ([(0, 6, op, ?e2 OR take_bit 8 a)], None)"
    by simp
  moreover from assms have "take_bit 24 a = a" by (simp add: take_bit_int_eq_self)
  ultimately show ?thesis by (simp only: join3)
qed

lemma unpack_encoded_3:
  assumes "op \<notin> set (is_EXTENDED_ARG env)" "0 \<le> a" "a < 2 ^ 32"
  shows "unpack_opargs env [op_EXTENDED_ARG env, drop_bit 24 a AND 255,
                            op_EXTENDED_ARG env, drop_bit 16 a AND 255,
                            op_EXTENDED_ARG env, drop_bit 8 a AND 255, op, a AND 255]
         = ([(0, 8, op, a)], None)"
proof -
  let ?c = "[op_EXTENDED_ARG env, drop_bit 24 a AND 255,
             op_EXTENDED_ARG env, drop_bit 16 a AND 255,
             op_EXTENDED_ARG env, drop_bit 8 a AND 255, op, a AND 255]"
  let ?e1 = "push_bit 8 (take_bit 8 (drop_bit 24 a))"
  let ?e2 = "push_bit 8 (?e1 OR take_bit 8 (drop_bit 16 a))"
  let ?e3 = "push_bit 8 (?e2 OR take_bit 8 (drop_bit 8 a))"
  have "unpack_opargs env ?c = unpack_opargs_loop env ?c ?e1 0 2"
    unfolding unpack_opargs_def
    by (rule unpack_prefix [where x = "drop_bit 24 a"]) (simp_all add: EXTENDED_ARG_is_prefix)
  also have "\<dots> = unpack_opargs_loop env ?c ?e2 0 4"
    by (rule unpack_prefix [where x = "drop_bit 16 a"]) (simp_all add: EXTENDED_ARG_is_prefix)
  also have "\<dots> = unpack_opargs_loop env ?c ?e3 0 6"
    by (rule unpack_prefix [where x = "drop_bit 8 a"]) (simp_all add: EXTENDED_ARG_is_prefix)
  also have "\<dots> = ([(int 0, 8, op, ?e3 OR take_bit 8 a)], None)"
    using assms(1) by (intro unpack_final) simp_all
  finally have "unpack_opargs env ?c = ([(0, 8, op, ?e3 OR take_bit 8 a)], None)"
    by simp
  moreover from assms have "take_bit 32 a = a" by (simp add: take_bit_int_eq_self)
  ultimately show ?thesis by (simp only: join4)
qed

lemma upto_0_1: "[0..1::int] = [0, 1]"
  by (simp add: upto_rec1)

lemma upto_0_2: "[0..2::int] = [0, 1, 2]"
  by (simp add: upto_rec1)

lemma opcode_arg_forced:
  assumes "arg_ext_needed a \<le> k" "k \<le> 3"
    "version_ge env (3, 11) \<longrightarrow> inline_cache_entries env op = 0"
  shows "opcode_arg env op a k
         = Inr (concat (map (\<lambda>i. [op_EXTENDED_ARG env, drop_bit (nat ((k - i) * 8)) a AND 255])
                            [0..k - 1])
                @ [op, a AND 255])"
  using assms by (auto simp: opcode_arg_def Let_def max_def)

lemma Branch_arg_inverse:
  assumes "b_is_relative b = (b_opcode b \<in> set (hasjrel env))"
    "b_is_backward b = opname_JUMP_BACKWARD env (b_opcode b)"
    "if b_is_relative b
     then (if b_is_backward b then b_target b \<le> b_offset b + b_length b
           else b_offset b + b_length b \<le> b_target b)
     else 0 \<le> b_target b"
    "Branch_arg env b = Inr a"
  shows "0 \<le> a \<and> Branch_init env (b_offset b) (b_length b) (b_opcode b) a = b"
proof -
  from assms(3,4) have a: "0 \<le> a"
    by (auto simp: Branch_arg_def offset2branch_def split: if_splits)
  from assms(3,4) have "b_target b
      = (if \<not> b_is_relative b then branch2offset env a
         else b_offset b + b_length b
              + branch2offset env (if b_is_backward b then - a else a))"
    by (auto simp: Branch_arg_def offset2branch_def branch2offset_def split: if_splits)
  then have "Branch_init env (b_offset b) (b_length b) (b_opcode b) a = b"
    using assms(1,2) by (intro Branch.equality) (simp_all add: Branch_init_def Let_def)
  with a show ?thesis by simp
qed

lemma Branch_init_arg:
  "0 \<le> a \<Longrightarrow> Branch_arg env (Branch_init env offset len opcode a) = Inr a"
  by (simp add: Branch_arg_def Branch_init_def Let_def offset2branch_def branch2offset_def)

text \<open>
  Claim C4, amended. Take a branch as the module builds and moves them: its flags are
  those \<^verbatim>\<open>__init__\<close> derives from the opcode, its length is 2, 4, 6 or 8, and its target
  lies where its direction says (a relative forward branch at or after the end of the
  instruction, a relative backward branch at or before it, an absolute one at a
  non-negative offset). Let \<^verbatim>\<open>arg()\<close> have the value \<open>a\<close> (from Python 3.10 on it asserts
  an even distance), let the opcode be no operand prefix and carry no inline cache
  entries, and let the length be at least \<open>2 + 2 * arg_ext_needed a\<close>. Then \<^verbatim>\<open>code()\<close>
  returns exactly \<open>length\<close> bytes, \<^verbatim>\<open>unpack_opargs\<close> decodes them to the one instruction
  \<open>(0, length, opcode, a)\<close>, and \<^verbatim>\<open>Branch(offset, length, opcode, a)\<close> is the branch
  itself, target included. In the other direction \<^verbatim>\<open>arg()\<close> returns the operand a
  branch was built from, for every operand that is not negative.
\<close>

theorem Branch_code_self_consistent:
  assumes flags: "b_is_relative b = (b_opcode b \<in> set (hasjrel env))"
      "b_is_backward b = opname_JUMP_BACKWARD env (b_opcode b)"
    and len: "b_length b \<in> {2, 4, 6, 8}"
    and dir: "if b_is_relative b
              then (if b_is_backward b then b_target b \<le> b_offset b + b_length b
                    else b_offset b + b_length b \<le> b_target b)
              else 0 \<le> b_target b"
    and arg: "Branch_arg env b = Inr a"
    and fits: "2 + 2 * arg_ext_needed a \<le> b_length b"
    and op: "b_opcode b \<notin> set (is_EXTENDED_ARG env)"
    and cache: "version_ge env (3, 11) \<longrightarrow> inline_cache_entries env (b_opcode b) = 0"
  shows "(\<exists>c. Branch_code env b = Inr c \<and> int (length c) = b_length b
              \<and> unpack_opargs env c = ([(0, b_length b, b_opcode b, a)], None))
         \<and> Branch_init env (b_offset b) (b_length b) (b_opcode b) a = b
         \<and> (0 \<le> a' \<longrightarrow> Branch_arg env (Branch_init env offset' len' opcode' a') = Inr a')"
proof -
  from Branch_arg_inverse [OF flags dir arg]
  have a: "0 \<le> a" and init: "Branch_init env (b_offset b) (b_length b) (b_opcode b) a = b"
    by simp_all
  have code: "Branch_code env b = opcode_arg env (b_opcode b) a ((b_length b - 2) div 2)"
    using arg fits by (simp add: Branch_code_def bindE_def)
  from len consider "b_length b = 2" | "b_length b = 4" | "b_length b = 6" | "b_length b = 8"
    by auto
  then have "\<exists>c. Branch_code env b = Inr c \<and> int (length c) = b_length b
              \<and> unpack_opargs env c = ([(0, b_length b, b_opcode b, a)], None)"
  proof cases
    case 1
    with fits have e: "arg_ext_needed a \<le> int 0" by simp
    from 1 e cache have "Branch_code env b = Inr [b_opcode b, a AND 255]"
      by (simp add: code opcode_arg_forced upto_0_1 upto_0_2)
    with 1 unpack_encoded_0 [OF op a] arg_ext_fits [OF a e] show ?thesis by simp
  next
    case 2
    with fits have e: "arg_ext_needed a \<le> int 1" by simp
    from 2 e cache have "Branch_code env b
        = Inr [op_EXTENDED_ARG env, drop_bit 8 a AND 255, b_opcode b, a AND 255]"
      by (simp add: code opcode_arg_forced upto_0_1 upto_0_2)
    with 2 unpack_encoded_1 [OF op a] arg_ext_fits [OF a e] show ?thesis by simp
  next
    case 3
    with fits have e: "arg_ext_needed a \<le> int 2" by simp
    from 3 e cache have "Branch_code env b
        = Inr [op_EXTENDED_ARG env, drop_bit 16 a AND 255,
               op_EXTENDED_ARG env, drop_bit 8 a AND 255, b_opcode b, a AND 255]"
      by (simp add: code opcode_arg_forced upto_0_1 upto_0_2)
    with 3 unpack_encoded_2 [OF op a] arg_ext_fits [OF a e] show ?thesis by simp
  next
    case 4
    with fits have e: "arg_ext_needed a \<le> int 3" by simp
    from 4 e cache have "Branch_code env b
        = Inr [op_EXTENDED_ARG env, drop_bit 24 a AND 255,
               op_EXTENDED_ARG env, drop_bit 16 a AND 255,
               op_EXTENDED_ARG env, drop_bit 8 a AND 255, b_opcode b, a AND 255]"
      by (simp add: code opcode_arg_forced upto_0_1 upto_0_2)
    with 4 unpack_encoded_3 [OF op a] arg_ext_fits [OF a e] show ?thesis by simp
  qed
  with init Branch_init_arg [of a' env offset' len' opcode'] show ?thesis by blast
qed

lemma example_branch_code:
  "Branch_code python_3_11
     \<lparr>b_offset = 0, b_length = 4, b_opcode = 110, b_is_relative = True,
      b_is_backward = False, b_target = 1004\<rparr> = Inr [144, 1, 110, 244]"
  by code_simp

theorem Branch_code_self_consistent_witness:
  "Branch_code python_3_11
     \<lparr>b_offset = 0, b_length = 4, b_opcode = 110, b_is_relative = True,
      b_is_backward = False, b_target = 1004\<rparr> = Inr [144, 1, 110, 244]
   \<and> unpack_opargs python_3_11 [144, 1, 110, 244] = ([(0, 4, 110, 500)], None)
   \<and> Branch_init python_3_11 0 4 110 500
     = \<lparr>b_offset = 0, b_length = 4, b_opcode = 110, b_is_relative = True,
        b_is_backward = False, b_target = 1004\<rparr>
   \<and> Branch_arg python_3_11 (Branch_init python_3_11 0 4 110 500) = Inr 500"
proof -
  let ?b = "\<lparr>b_offset = 0, b_length = 4, b_opcode = 110, b_is_relative = True,
             b_is_backward = False, b_target = 1004\<rparr>"
  have flags: "b_is_relative ?b = (b_opcode ?b \<in> set (hasjrel python_3_11))"
    "b_is_backward ?b = opname_JUMP_BACKWARD python_3_11 (b_opcode ?b)"
    by (simp_all add: python_3_11_def)
  have len: "b_length ?b \<in> {2, 4, 6, 8}" by simp
  have dir: "if b_is_relative ?b
             then (if b_is_backward ?b then b_target ?b \<le> b_offset ?b + b_length ?b
                   else b_offset ?b + b_length ?b \<le> b_target ?b)
             else 0 \<le> b_target ?b" by simp
  have arg: "Branch_arg python_3_11 ?b = Inr 500" by code_simp
  have fits: "2 + 2 * arg_ext_needed 500 \<le> b_length ?b"
    by (simp add: arg_ext_needed_def bit_length_def)
  have op: "b_opcode ?b \<notin> set (is_EXTENDED_ARG python_3_11)"
    by (simp add: is_EXTENDED_ARG_def python_3_11_def)
  have cache: "version_ge python_3_11 (3, 11)
               \<longrightarrow> inline_cache_entries python_3_11 (b_opcode ?b) = 0"
    by (simp add: python_3_11_def)
  have five: "(0::int) \<le> 500" by simp
  from Branch_code_self_consistent [OF flags len dir arg fits op cache, of 500 0 4 110]
       example_branch_code five
  show ?thesis by auto
qed

text \<open>
  Claim C4 as stated asks only for \<open>length \<ge> 2 + 2 * arg_ext_needed (arg())\<close>. That
  admits the branch decoded from an instruction with four operand prefixes, and the
  branch that \<^verbatim>\<open>adjust_length\<close> has grown to ten bytes for an operand of \<open>2 ^ 32\<close>: on
  both \<^verbatim>\<open>code()\<close> fails the assertion \<^verbatim>\<open>ext <= 3\<close> of \<^verbatim>\<open>opcode_arg\<close> and returns no
  bytes. It also admits a length of 3, for which \<^verbatim>\<open>code()\<close> returns two bytes, and a
  forward branch whose target is before it, which is rebuilt with another target.
\<close>

theorem Branch_code_outside_encoding:
  "Branch_from_code python_3_11 [144, 0, 144, 0, 144, 0, 144, 0, 110, 0]
     = Inr [\<lparr>b_offset = 0, b_length = 10, b_opcode = 110, b_is_relative = True,
              b_is_backward = False, b_target = 10\<rparr>]
   \<and> Branch_arg python_3_11
       \<lparr>b_offset = 0, b_length = 10, b_opcode = 110, b_is_relative = True,
        b_is_backward = False, b_target = 10\<rparr> = Inr 0
   \<and> 2 + 2 * arg_ext_needed 0 \<le> 10
   \<and> Branch_code python_3_11
       \<lparr>b_offset = 0, b_length = 10, b_opcode = 110, b_is_relative = True,
        b_is_backward = False, b_target = 10\<rparr> = Inl AssertionError
   \<and> Branch_adjust_length python_3_11
       \<lparr>b_offset = 0, b_length = 2, b_opcode = 110, b_is_relative = True,
        b_is_backward = False, b_target = 8589934594\<rparr>
     = Inr (8, \<lparr>b_offset = 0, b_length = 10, b_opcode = 110, b_is_relative = True,
                b_is_backward = False, b_target = 8589934602\<rparr>)
   \<and> Branch_code python_3_11
       \<lparr>b_offset = 0, b_length = 10, b_opcode = 110, b_is_relative = True,
        b_is_backward = False, b_target = 8589934602\<rparr> = Inl AssertionError
   \<and> Branch_code python_3_11
       \<lparr>b_offset = 0, b_length = 3, b_opcode = 110, b_is_relative = True,
        b_is_backward = False, b_target = 3\<rparr> = Inr [110, 0]
   \<and> Branch_code python_3_11
       \<lparr>b_offset = 10, b_length = 2, b_opcode = 110, b_is_relative = True,
        b_is_backward = False, b_target = 0\<rparr> = Inr [110, 6]
   \<and> unpack_opargs python_3_11 [110, 6] = ([(0, 2, 110, 6)], None)
   \<and> b_target (Branch_init python_3_11 10 2 110 6) = 24"
proof -
  have v: "version_ge python_3_11 (3, 10)" "version_ge python_3_11 (3, 11)"
    by (simp_all add: version_ge_def python_3_11_def)
  have "Branch_from_code python_3_11 [144, 0, 144, 0, 144, 0, 144, 0, 110, 0]
     = Inr [\<lparr>b_offset = 0, b_length = 10, b_opcode = 110, b_is_relative = True,
              b_is_backward = False, b_target = 10\<rparr>]"
    by code_simp
  moreover have "Branch_arg python_3_11
       \<lparr>b_offset = 0, b_length = 10, b_opcode = 110, b_is_relative = True,
        b_is_backward = False, b_target = 10\<rparr> = Inr 0"
    by code_simp
  moreover have "2 + 2 * arg_ext_needed 0 \<le> 10"
    by (simp add: arg_ext_needed_def)
  moreover have "Branch_code python_3_11
       \<lparr>b_offset = 0, b_length = 10, b_opcode = 110, b_is_relative = True,
        b_is_backward = False, b_target = 10\<rparr> = Inl AssertionError"
    by code_simp
  moreover have "Branch_adjust_length python_3_11
       \<lparr>b_offset = 0, b_length = 2, b_opcode = 110, b_is_relative = True,
        b_is_backward = False, b_target = 8589934594\<rparr>
     = Inr (8, \<lparr>b_offset = 0, b_length = 10, b_opcode = 110, b_is_relative = True,
                b_is_backward = False, b_target = 8589934602\<rparr>)"
    by (simp add: Branch_adjust_length_def Branch_arg_def bindE_def offset2branch_def v
                  arg_ext_needed_def bit_length_def Let_def)
  moreover have "Branch_code python_3_11
       \<lparr>b_offset = 0, b_length = 10, b_opcode = 110, b_is_relative = True,
        b_is_backward = False, b_target = 8589934602\<rparr> = Inl AssertionError"
    by (simp add: Branch_code_def Branch_arg_def bindE_def offset2branch_def v
                  arg_ext_needed_def bit_length_def opcode_arg_def Let_def)
  moreover have "Branch_code python_3_11
       \<lparr>b_offset = 0, b_length = 3, b_opcode = 110, b_is_relative = True,
        b_is_backward = False, b_target = 3\<rparr> = Inr [110, 0]"
    by code_simp
  moreover have "Branch_code python_3_11
       \<lparr>b_offset = 10, b_length = 2, b_opcode = 110, b_is_relative = True,
        b_is_backward = False, b_target = 0\<rparr> = Inr [110, 6]"
    by code_simp
  moreover have "unpack_opargs python_3_11 [110, 6] = ([(0, 2, 110, 6)], None)"
    by code_simp
  moreover have "b_target (Branch_init python_3_11 10 2 110 6) = 24"
    by code_simp
  ultimately show ?thesis by blast
qed

section \<open>The growth loop of \<^verbatim>\<open>finish\<close> ends\<close>

lemma Branch_adjust_weight:
  "0 \<le> c \<Longrightarrow> b_length (Branch_adjust b off c) = b_length b
     \<and> branch_weight (Branch_adjust b off c) \<le> branch_weight b + 2 * c"
  by (auto simp: Branch_adjust_def branch_weight_def Let_def)

lemma Branch_arg_le_weight: "Branch_arg env b = Inr a \<Longrightarrow> \<bar>a\<bar> \<le> branch_weight b"
  by (auto simp: Branch_arg_def offset2branch_def branch_weight_def split: if_splits)

lemma Branch_adjust_length_cases:
  assumes "Branch_adjust_length env b = Inr (c, b')"
  shows "\<exists>a. Branch_arg env b = Inr a
           \<and> (c = 0 \<and> b' = b \<and> 2 + 2 * arg_ext_needed a \<le> b_length b
              \<or> 0 < c \<and> b_length b' = b_length b + c
                \<and> b_length b' = 2 + 2 * arg_ext_needed a
                \<and> b_offset b' = b_offset b
                \<and> branch_weight b' \<le> branch_weight b + 2 * c)"
  using assms
  by (auto simp: Branch_adjust_length_def bindE_def Let_def branch_weight_def max_def
           split: sum.splits if_splits)

lemma adjust_others_length [simp]: "length (adjust_others bs i off c) = length bs"
  by (simp add: adjust_others_def)

lemma adjust_others_nth:
  "j < length bs \<Longrightarrow>
   adjust_others bs i off c ! j = (if j = i then bs ! j else Branch_adjust (bs ! j) off c)"
  by (simp add: adjust_others_def nth_enumerate_eq)

lemma sum_list_pointwise_le:
  fixes f :: "'a \<Rightarrow> int"
  assumes "length ys = length xs" "\<forall>j<length xs. f (ys ! j) \<le> f (xs ! j) + d"
  shows "sum_list (map f ys) \<le> sum_list (map f xs) + int (length xs) * d"
  using assms
proof (induction ys xs rule: list_induct2)
  case Nil
  then show ?case by simp
next
  case (Cons y ys x xs)
  from Cons.prems have "f y \<le> f x + d" by (auto dest: spec [of _ 0])
  moreover from Cons.prems have "\<forall>j<length xs. f (ys ! j) \<le> f (xs ! j) + d" by auto
  with Cons.IH have "sum_list (map f ys) \<le> sum_list (map f xs) + int (length xs) * d" by simp
  ultimately show ?case by (simp add: algebra_simps)
qed

lemma sum_list_one_grows:
  fixes g :: "'a \<Rightarrow> int"
  assumes "length ys = length xs" "i < length xs" "g (ys ! i) = g (xs ! i) + c"
    "\<forall>j<length xs. j \<noteq> i \<longrightarrow> g (ys ! j) = g (xs ! j)"
  shows "sum_list (map g ys) = sum_list (map g xs) + c"
  using assms
proof (induction ys xs arbitrary: i rule: list_induct2)
  case Nil
  then show ?case by simp
next
  case (Cons y ys x xs)
  show ?case
  proof (cases i)
    case 0
    with Cons.prems have "g y = g x + c" by simp
    moreover from Cons.prems 0 have "\<forall>j<length xs. g (ys ! j) = g (xs ! j)" by auto
    with Cons.hyps have "map g ys = map g xs" by (simp add: list_eq_iff_nth_eq)
    ultimately show ?thesis by simp
  next
    case (Suc k)
    with Cons.prems have "g y = g x" by auto
    moreover from Cons.prems Suc have "k < length xs" "g (ys ! k) = g (xs ! k) + c"
      "\<forall>j<length xs. j \<noteq> k \<longrightarrow> g (ys ! j) = g (xs ! j)" by auto
    with Cons.IH have "sum_list (map g ys) = sum_list (map g xs) + c" by blast
    ultimately show ?thesis by simp
  qed
qed

lemma branch_weight_nonneg: "0 \<le> branch_weight b"
  by (simp add: branch_weight_def)

lemma weight_le_sum: "b \<in> set bs \<Longrightarrow> branch_weight b \<le> sum_list (map branch_weight bs)"
proof (induction bs)
  case Nil
  then show ?case by simp
next
  case (Cons x xs)
  have "0 \<le> sum_list (map branch_weight xs)"
    by (rule sum_list_nonneg) (auto simp: branch_weight_nonneg)
  with Cons branch_weight_nonneg [of x] show ?case by auto
qed

lemma sum_lengths_le_bound:
  assumes "grow_inv n K L lens0 bs"
  shows "sum_list (map b_length bs) \<le> sum_list (map (\<lambda>l. max l L) lens0)"
proof -
  from assms have len: "length bs = n" "length lens0 = n"
    and le: "\<forall>j<n. b_length (bs ! j) \<le> max (lens0 ! j) L"
    by (simp_all add: grow_inv_def)
  have "sum_list (map b_length bs) = (\<Sum>j<n. b_length (bs ! j))"
    using len by (simp add: sum_list_sum_nth atLeast0LessThan)
  also have "\<dots> \<le> (\<Sum>j<n. max (lens0 ! j) L)"
    using le by (intro sum_mono) simp
  also have "\<dots> = sum_list (map (\<lambda>l. max l L) lens0)"
    using len by (simp add: sum_list_sum_nth atLeast0LessThan)
  finally show ?thesis .
qed

lemma grow_step:
  assumes ok: "bound_ok n K L lens0" and inv: "grow_inv n K L lens0 bs"
    and i: "i < n" and adj: "Branch_adjust_length env (bs ! i) = Inr (c, b')" and c: "c \<noteq> 0"
  shows "grow_inv n K L lens0 (adjust_others (bs[i := b']) i (b_offset b') c)
         \<and> sum_list (map b_length (adjust_others (bs[i := b']) i (b_offset b') c))
           = sum_list (map b_length bs) + c
         \<and> 0 < c"
proof -
  let ?bs' = "adjust_others (bs[i := b']) i (b_offset b') c"
  from inv have len: "length bs = n" "length lens0 = n"
    and K: "sum_list (map branch_weight bs) - 2 * int n * sum_list (map b_length bs) \<le> K"
    and le: "\<forall>j<n. b_length (bs ! j) \<le> max (lens0 ! j) L"
    by (simp_all add: grow_inv_def)
  from Branch_adjust_length_cases [OF adj] c obtain a where
    a: "Branch_arg env (bs ! i) = Inr a" and cpos: "0 < c"
    and bl: "b_length b' = b_length (bs ! i) + c" "b_length b' = 2 + 2 * arg_ext_needed a"
    and bw: "branch_weight b' \<le> branch_weight (bs ! i) + 2 * c"
    by auto
  have len': "length ?bs' = length bs" by simp
  have nth_i: "?bs' ! i = b'" using i len by (simp add: adjust_others_nth)
  have nth_j: "?bs' ! j = Branch_adjust (bs ! j) (b_offset b') c" if "j < n" "j \<noteq> i" for j
    using that len by (simp add: adjust_others_nth)
  have lens: "sum_list (map b_length ?bs') = sum_list (map b_length bs) + c"
  proof (rule sum_list_one_grows [OF len', of i])
    show "i < length bs" using i len by simp
    show "b_length (?bs' ! i) = b_length (bs ! i) + c" by (simp add: nth_i bl)
    show "\<forall>j<length bs. j \<noteq> i \<longrightarrow> b_length (?bs' ! j) = b_length (bs ! j)"
      using cpos Branch_adjust_weight [of c] len by (simp add: nth_j)
  qed
  have "\<forall>j<length bs. branch_weight (?bs' ! j) \<le> branch_weight (bs ! j) + 2 * c"
  proof (intro allI impI)
    fix j assume "j < length bs"
    then show "branch_weight (?bs' ! j) \<le> branch_weight (bs ! j) + 2 * c"
      using cpos Branch_adjust_weight [of c "bs ! j" "b_offset b'"] len bw
      by (cases "j = i") (simp_all add: nth_i nth_j)
  qed
  from sum_list_pointwise_le [OF len' this]
  have w: "sum_list (map branch_weight ?bs')
           \<le> sum_list (map branch_weight bs) + int n * (2 * c)"
    using len by simp
  have K': "sum_list (map branch_weight ?bs') - 2 * int n * sum_list (map b_length ?bs') \<le> K"
    using w K by (simp add: lens algebra_simps)
  have "\<bar>a\<bar> \<le> branch_weight (bs ! i)" by (rule Branch_arg_le_weight [OF a])
  also have "\<dots> \<le> sum_list (map branch_weight bs)"
    using i len by (intro weight_le_sum) simp
  also have "\<dots> \<le> K + 2 * int n * sum_list (map b_length bs)" using K by simp
  also have "\<dots> \<le> K + 2 * int n * sum_list (map (\<lambda>l. max l L) lens0)"
    using sum_lengths_le_bound [OF inv] by (simp add: mult_left_mono)
  finally have "2 + 2 * arg_ext_needed a \<le> L" using ok by (simp add: bound_ok_def)
  with bl have "b_length b' \<le> L" by simp
  have "\<forall>j<n. b_length (?bs' ! j) \<le> max (lens0 ! j) L"
  proof (intro allI impI)
    fix j assume j: "j < n"
    show "b_length (?bs' ! j) \<le> max (lens0 ! j) L"
    proof (cases "j = i")
      case True
      with \<open>b_length b' \<le> L\<close> show ?thesis by (simp add: nth_i)
    next
      case False
      with j le cpos Branch_adjust_weight [of c "bs ! j" "b_offset b'"] show ?thesis
        by (simp add: nth_j)
    qed
  qed
  with K' len lens cpos show ?thesis by (simp add: grow_inv_def)
qed

lemma finish_scan_done:
  "\<not> i < length (branches ed) \<Longrightarrow> finish_scan env ed i flag = Inr (flag, ed)"
  by (subst finish_scan.simps) simp

lemma finish_scan_invariant:
  assumes ok: "bound_ok n K L lens0"
  shows "grow_inv n K L lens0 (branches ed)
         \<Longrightarrow> finish_scan env ed i flag = Inr (flag', ed')
         \<Longrightarrow> grow_inv n K L lens0 (branches ed')
             \<and> sum_list (map b_length (branches ed)) \<le> sum_list (map b_length (branches ed'))
             \<and> (flag' \<longrightarrow> flag
                   \<or> sum_list (map b_length (branches ed))
                      < sum_list (map b_length (branches ed')))"
proof (induction k \<equiv> "n - i" arbitrary: ed i flag)
  case 0
  then have "\<not> i < length (branches ed)" by (simp add: grow_inv_def)
  with 0 show ?case by (simp add: finish_scan_done)
next
  case (Suc k)
  from Suc.prems(1) have len: "length (branches ed) = n" by (simp add: grow_inv_def)
  from Suc.hyps(2) have i: "i < n" and k: "k = n - Suc i" by simp_all
  from Suc.prems(2) i len obtain c b where
    adj: "Branch_adjust_length env (branches ed ! i) = Inr (c, b)"
    by (subst (asm) finish_scan.simps) (auto split: sum.splits)
  show ?case
  proof (cases "c = 0")
    case True
    with Branch_adjust_length_cases [OF adj] have "b = branches ed ! i" by auto
    with i len have same: "ed\<lparr>branches := (branches ed)[i := b]\<rparr> = ed" by simp
    from Suc.prems(2) i len adj True same
    have "finish_scan env ed (Suc i) flag = Inr (flag', ed')"
      by (subst (asm) finish_scan.simps) simp
    from Suc.hyps(1) [OF k Suc.prems(1) this] show ?thesis .
  next
    case False
    let ?bs = "adjust_others ((branches ed)[i := b]) i (b_offset b) c"
    from Suc.prems(2) i len adj False obtain p where
      rec: "finish_scan env
              (ed\<lparr>patch := p, branches := ?bs,
                  lines := map (\<lambda>l. LineEntry_adjust l (b_offset b) c) (lines ed),
                  ex_table := map (\<lambda>e. ExceptionTableEntry_adjust e (b_offset b) c)
                                  (ex_table ed)\<rparr>)
              (Suc i) True = Inr (flag', ed')"
      by (subst (asm) finish_scan.simps) (auto split: sum.splits)
    let ?ed = "ed\<lparr>patch := p, branches := ?bs,
                  lines := map (\<lambda>l. LineEntry_adjust l (b_offset b) c) (lines ed),
                  ex_table := map (\<lambda>e. ExceptionTableEntry_adjust e (b_offset b) c)
                                  (ex_table ed)\<rparr>"
    from grow_step [OF ok Suc.prems(1) i adj False]
    have inv': "grow_inv n K L lens0 (branches ?ed)"
      and grow: "sum_list (map b_length (branches ?ed))
                 = sum_list (map b_length (branches ed)) + c" "0 < c"
      by simp_all
    from Suc.hyps(1) [OF k inv' rec] grow show ?thesis by simp
  qed
qed

lemma finish_scan_flag:
  "finish_scan env ed i flag = Inr (flag', ed') \<Longrightarrow> flag \<Longrightarrow> flag'"
proof (induction env ed i flag rule: finish_scan.induct)
  case (1 env ed i any_adjusted)
  show ?case
  proof (cases "i < length (branches ed)")
    case False
    with "1.prems" show ?thesis by (simp add: finish_scan_done)
  next
    case True
    with "1.prems"(1) obtain c b where
      adj: "Branch_adjust_length env (branches ed ! i) = Inr (c, b)"
      by (subst (asm) finish_scan.simps) (auto split: sum.splits)
    show ?thesis
    proof (cases "c = 0")
      case c0: True
      from "1.prems"(1) True adj c0
      have "finish_scan env (ed\<lparr>branches := (branches ed)[i := b]\<rparr>) (Suc i) any_adjusted
            = Inr (flag', ed')"
        by (subst (asm) finish_scan.simps) simp
      from "1.IH"(2) [OF True adj refl _ this "1.prems"(2)] c0 show ?thesis by simp
    next
      case False
      from "1.prems"(1) True adj False obtain p where
        p: "set_slice (patch ed) (b_offset b) (b_offset b) (replicate (nat c) 0) = Inr p"
        and rec: "finish_scan env
              (ed\<lparr>patch := p,
                  branches := adjust_others ((branches ed)[i := b]) i (b_offset b) c,
                  lines := map (\<lambda>l. LineEntry_adjust l (b_offset b) c) (lines ed),
                  ex_table := map (\<lambda>e. ExceptionTableEntry_adjust e (b_offset b) c)
                                  (ex_table ed)\<rparr>)
              (Suc i) True = Inr (flag', ed')"
        by (subst (asm) finish_scan.simps) (auto split: sum.splits)
      from "1.IH"(1) [OF True adj refl False p rec] show ?thesis by simp
    qed
  qed
qed


lemma finish_scan_stable:
  "finish_scan env ed i False = Inr (False, ed') \<Longrightarrow> ed' = ed"
proof (induction k \<equiv> "length (branches ed) - i" arbitrary: i)
  case 0
  then show ?case by (simp add: finish_scan_done)
next
  case (Suc k)
  from Suc.hyps(2) have i: "i < length (branches ed)"
    and k: "k = length (branches ed) - Suc i" by simp_all
  from Suc.prems i obtain c b where
    adj: "Branch_adjust_length env (branches ed ! i) = Inr (c, b)"
    by (subst (asm) finish_scan.simps) (auto split: sum.splits)
  show ?case
  proof (cases "c = 0")
    case True
    with Branch_adjust_length_cases [OF adj] have "b = branches ed ! i" by auto
    with i have same: "ed\<lparr>branches := (branches ed)[i := b]\<rparr> = ed" by simp
    from Suc.prems i adj True same
    have "finish_scan env ed (Suc i) False = Inr (False, ed')"
      by (subst (asm) finish_scan.simps) simp
    from Suc.hyps(1) [OF k this] show ?thesis .
  next
    case False
    from Suc.prems i adj False obtain ed1 where
      "finish_scan env ed1 (Suc i) True = Inr (False, ed')"
      by (subst (asm) finish_scan.simps) (auto split: sum.splits)
    from finish_scan_flag [OF this] show ?thesis by simp
  qed
qed

lemma finish_scan_lengths:
  "finish_scan env ed i flag = Inr (flag', ed')
   \<Longrightarrow> length (branches ed') = length (branches ed)
       \<and> (\<forall>j<length (branches ed).
             b_length (branches ed ! j) \<le> b_length (branches ed' ! j))"
proof (induction k \<equiv> "length (branches ed) - i" arbitrary: ed i flag)
  case 0
  then show ?case by (simp add: finish_scan_done)
next
  case (Suc k)
  from Suc.hyps(2) have i: "i < length (branches ed)"
    and k: "k = length (branches ed) - Suc i" by simp_all
  from Suc.prems i obtain c b where
    adj: "Branch_adjust_length env (branches ed ! i) = Inr (c, b)"
    by (subst (asm) finish_scan.simps) (auto split: sum.splits)
  show ?case
  proof (cases "c = 0")
    case True
    with Branch_adjust_length_cases [OF adj] have "b = branches ed ! i" by auto
    with i have same: "ed\<lparr>branches := (branches ed)[i := b]\<rparr> = ed" by simp
    from Suc.prems i adj True same
    have "finish_scan env ed (Suc i) flag = Inr (flag', ed')"
      by (subst (asm) finish_scan.simps) simp
    from Suc.hyps(1) [OF k this] show ?thesis .
  next
    case False
    let ?bs = "adjust_others ((branches ed)[i := b]) i (b_offset b) c"
    from Suc.prems i adj False obtain p where
      rec: "finish_scan env
              (ed\<lparr>patch := p, branches := ?bs,
                  lines := map (\<lambda>l. LineEntry_adjust l (b_offset b) c) (lines ed),
                  ex_table := map (\<lambda>e. ExceptionTableEntry_adjust e (b_offset b) c)
                                  (ex_table ed)\<rparr>)
              (Suc i) True = Inr (flag', ed')"
      by (subst (asm) finish_scan.simps) (auto split: sum.splits)
    let ?ed = "ed\<lparr>patch := p, branches := ?bs,
                  lines := map (\<lambda>l. LineEntry_adjust l (b_offset b) c) (lines ed),
                  ex_table := map (\<lambda>e. ExceptionTableEntry_adjust e (b_offset b) c)
                                  (ex_table ed)\<rparr>"
    from Branch_adjust_length_cases [OF adj] False
    have cpos: "0 < c" and bl: "b_length b = b_length (branches ed ! i) + c" by auto
    have step: "b_length (branches ed ! j) \<le> b_length (?bs ! j)"
      if "j < length (branches ed)" for j
      using that cpos bl Branch_adjust_weight [of c "branches ed ! j" "b_offset b"]
      by (cases "j = i") (simp_all add: adjust_others_nth)
    have k': "k = length (branches ?ed) - Suc i" using k by simp
    from Suc.hyps(1) [OF k' rec]
    have "length (branches ed') = length (branches ed)"
      and "\<forall>j<length (branches ed). b_length (?bs ! j) \<le> b_length (branches ed' ! j)"
      by simp_all
    with step show ?thesis by (auto intro: order_trans)
  qed
qed

lemma finish_loop_result_bounded:
  assumes ok: "bound_ok n K L lens0"
  shows "grow_inv n K L lens0 (branches ed)
         \<Longrightarrow> \<exists>r. finish_loop env ed = Some r
               \<and> (\<forall>ed'. r = Inr ed' \<longrightarrow>
                     finish_scan env ed' 0 False = Inr (False, ed')
                     \<and> length (branches ed') = length (branches ed)
                     \<and> (\<forall>j<length (branches ed).
                           b_length (branches ed ! j) \<le> b_length (branches ed' ! j)))"
proof (induction m \<equiv> "nat (sum_list (map (\<lambda>l. max l L) lens0)
                             - sum_list (map b_length (branches ed)))"
       arbitrary: ed rule: less_induct)
  case less
  show ?case
  proof (cases "finish_scan env ed 0 False")
    case (Inl e)
    then have "finish_loop env ed = Some (Inl e)" by (subst finish_loop.simps) simp
    then show ?thesis by simp
  next
    case (Inr r)
    obtain flag' ed1 where r: "r = (flag', ed1)" by (cases r)
    note scan = Inr [unfolded r]
    from finish_scan_invariant [OF ok less.prems scan]
    have inv': "grow_inv n K L lens0 (branches ed1)"
      and grow: "flag' \<longrightarrow> sum_list (map b_length (branches ed))
                           < sum_list (map b_length (branches ed1))"
      by simp_all
    note lens1 = finish_scan_lengths [OF scan]
    show ?thesis
    proof (cases flag')
      case False
      with scan have "finish_loop env ed = Some (Inr ed1)" by (subst finish_loop.simps) simp
      moreover from scan False have "ed1 = ed" by (simp add: finish_scan_stable)
      ultimately show ?thesis using scan False by simp
    next
      case True
      with grow sum_lengths_le_bound [OF inv']
      have "nat (sum_list (map (\<lambda>l. max l L) lens0) - sum_list (map b_length (branches ed1)))
            < nat (sum_list (map (\<lambda>l. max l L) lens0) - sum_list (map b_length (branches ed)))"
        by simp
      from less.hyps [OF this inv'] obtain r' where
        r': "finish_loop env ed1 = Some r'"
        and res: "\<forall>ed'. r' = Inr ed' \<longrightarrow>
                     finish_scan env ed' 0 False = Inr (False, ed')
                     \<and> length (branches ed') = length (branches ed1)
                     \<and> (\<forall>j<length (branches ed1).
                           b_length (branches ed1 ! j) \<le> b_length (branches ed' ! j))"
        by blast
      from scan True r' have "finish_loop env ed = Some r'"
        by (subst finish_loop.simps) simp
      moreover have "finish_scan env ed' 0 False = Inr (False, ed')
                     \<and> length (branches ed') = length (branches ed)
                     \<and> (\<forall>j<length (branches ed).
                           b_length (branches ed ! j) \<le> b_length (branches ed' ! j))"
        if "r' = Inr ed'" for ed'
        using res that lens1 by (auto intro: order_trans)
      ultimately show ?thesis by blast
    qed
  qed
qed

lemma bit_length_abs_le: "\<bar>a\<bar> < 2 ^ m \<Longrightarrow> bit_length a \<le> int m"
proof -
  assume "\<bar>a\<bar> < 2 ^ m"
  then have "bit_length \<bar>a\<bar> \<le> int m" by (intro bit_length_le) simp_all
  then show ?thesis by (simp add: bit_length_def)
qed

lemma sum_max_le:
  "0 \<le> L \<Longrightarrow> sum_list (map (\<lambda>l. max l L) (xs::int list))
              \<le> sum_list (map abs xs) + int (length xs) * L"
  by (induction xs) (auto simp: algebra_simps)

lemma linear_below_exp: "2 * int c + 8 \<le> 2 ^ (c + 6)"
proof -
  have "c < 2 ^ c" by (rule less_exp)
  then have "int c < int (2 ^ c)" by (simp only: of_nat_less_iff)
  then have "int c < 2 ^ c" by simp
  moreover have "(1::int) \<le> 2 ^ c" by simp
  ultimately have "2 * int c + 8 \<le> 64 * (2::int) ^ c" by linarith
  also have "\<dots> = 2 ^ (c + 6)" by (simp add: power_add)
  finally show ?thesis .
qed

lemma bound_exists:
  assumes "length lens0 = n"
  shows "\<exists>L. bound_ok n K L lens0"
proof -
  define M where "M = sum_list (map abs lens0)"
  define P where "P = max 0 (K + 2 * int n * M)"
  define Q where "Q = 2 * int n * int n"
  define X where "X = P + Q + 1"
  define c where "c = nat (bit_length X)"
  define L where "L = 2 * int c + 8"
  have P: "0 \<le> P" and Q: "0 \<le> Q" and L: "1 \<le> L" and X: "0 \<le> X"
    by (simp_all add: P_def Q_def L_def X_def)
  have Xc: "X < 2 ^ c" unfolding c_def by (rule bit_length_upper [OF X])
  have "2 + 2 * arg_ext_needed a \<le> L"
    if a: "\<bar>a\<bar> \<le> K + 2 * int n * sum_list (map (\<lambda>l. max l L) lens0)" for a
  proof -
    have "sum_list (map (\<lambda>l. max l L) lens0) \<le> M + int n * L"
      using sum_max_le [of L lens0] L assms by (simp add: M_def)
    then have "2 * int n * sum_list (map (\<lambda>l. max l L) lens0) \<le> 2 * int n * (M + int n * L)"
      by (intro mult_left_mono) simp_all
    with a have "\<bar>a\<bar> \<le> (K + 2 * int n * M) + Q * L"
      by (simp add: Q_def algebra_simps)
    also have "\<dots> \<le> P + Q * L" by (simp add: P_def)
    also have "\<dots> \<le> P * L + Q * L"
      using P L by (simp add: mult_le_cancel_left1)
    also have "\<dots> \<le> X * L" using L by (simp add: X_def algebra_simps)
    also have "\<dots> < 2 ^ c * L" using Xc L by (simp add: mult_strict_right_mono)
    also have "\<dots> \<le> 2 ^ c * 2 ^ (c + 6)"
      using linear_below_exp [of c] by (simp add: L_def mult_left_mono)
    also have "\<dots> = 2 ^ (2 * c + 6)" by (simp add: power_add [symmetric])
    finally have "bit_length a \<le> int (2 * c + 6)" by (rule bit_length_abs_le)
    moreover have "0 \<le> bit_length a" by simp
    ultimately show ?thesis by (simp add: arg_ext_needed_def L_def)
  qed
  then show ?thesis by (auto simp: bound_ok_def)
qed

text \<open>
  Claim C7, amended. For every editor, whatever its branches, the \<^verbatim>\<open>while\<close> loop of
  \<^verbatim>\<open>finish\<close> ends: it raises the parity assertion of \<^verbatim>\<open>offset2branch\<close>, or it returns an
  editor on which a full scan grows nothing, with as many branches as before and none
  of them shorter. So \<^verbatim>\<open>finish\<close> itself always ends. The lengths only grow, a length grows
  only to the size its operand needs, and that size is bounded, though not by 8 bytes:
  it grows with the logarithm of the operand, and the operands grow at most linearly
  with the bytes the loop inserts.
\<close>

theorem finish_loop_terminates:
  "(\<exists>r. finish_loop env ed = Some r
       \<and> (\<forall>ed'. r = Inr ed' \<longrightarrow>
             finish_scan env ed' 0 False = Inr (False, ed')
             \<and> length (branches ed') = length (branches ed)
             \<and> (\<forall>j<length (branches ed).
                   b_length (branches ed ! j) \<le> b_length (branches ed' ! j))))
   \<and> (\<exists>r. Editor_finish env ed = Some r)"
proof -
  define n where "n = length (branches ed)"
  define lens0 where "lens0 = map b_length (branches ed)"
  define K where "K = sum_list (map branch_weight (branches ed))
                      - 2 * int n * sum_list (map b_length (branches ed))"
  have "length lens0 = n" by (simp add: lens0_def n_def)
  from bound_exists [OF this, of K] obtain L where ok: "bound_ok n K L lens0" by blast
  have inv: "grow_inv n K L lens0 (branches ed)"
    by (simp add: grow_inv_def n_def lens0_def K_def)
  from finish_loop_result_bounded [OF ok inv, of env] obtain r where
    r: "finish_loop env ed = Some r"
    and res: "\<forall>ed'. r = Inr ed' \<longrightarrow>
             finish_scan env ed' 0 False = Inr (False, ed')
             \<and> length (branches ed') = length (branches ed)
             \<and> (\<forall>j<length (branches ed).
                   b_length (branches ed ! j) \<le> b_length (branches ed' ! j))"
    by blast
  from r have "\<exists>r. Editor_finish env ed = Some r"
    by (auto simp: Editor_finish_def Let_def split: sum.splits prod.splits)
  with r res show ?thesis by blast
qed

lemma cascade_editor_inserted:
  "bindE (Editor_init python_3_11 cascade_code [(0, Some 1)])
     (\<lambda>ed. insert_function_call python_3_11 ed 6 1 []) = Inr (22, cascade_editor)"
  by code_simp

lemma cascade_finish_loop:
  "(case finish_loop python_3_11 cascade_editor of
      Some (Inr ed') \<Rightarrow> map b_length (branches ed') = [4, 4]
                        \<and> map b_target (branches ed') = [520, 2]
                        \<and> length (patch ed') = 522
    | _ \<Rightarrow> False)"
  by code_simp

theorem finish_loop_terminates_witness:
  "(\<exists>r. finish_loop python_3_11 cascade_editor = Some r)
   \<and> map b_length (branches cascade_editor) = [2, 2]
   \<and> (case finish_loop python_3_11 cascade_editor of
         Some (Inr ed') \<Rightarrow> map b_length (branches ed') = [4, 4]
                           \<and> map b_target (branches ed') = [520, 2]
                           \<and> length (patch ed') = 522
       | _ \<Rightarrow> False)"
proof -
  from finish_loop_terminates [of python_3_11 cascade_editor]
  have "\<exists>r. finish_loop python_3_11 cascade_editor = Some r" by blast
  moreover have "map b_length (branches cascade_editor) = [2, 2]"
    by (simp add: cascade_editor_def)
  ultimately show ?thesis using cascade_finish_loop by blast
qed

lemma python_3_11_version:
  "version_ge python_3_11 (3, 10)" "version_ge python_3_11 (3, 11)"
  by (simp_all add: version_ge_def python_3_11_def)

lemma wide_branch_grows:
  "Branch_adjust_length python_3_11 wide_branch
   = Inr (8, wide_branch\<lparr>b_target := 8589934602, b_length := 10\<rparr>)"
  by (simp add: wide_branch_def Branch_adjust_length_def Branch_arg_def bindE_def
                offset2branch_def python_3_11_version arg_ext_needed_def bit_length_def Let_def)

lemma wide_branch_grown:
  "Branch_adjust_length python_3_11 (wide_branch\<lparr>b_target := 8589934602, b_length := 10\<rparr>)
   = Inr (0, wide_branch\<lparr>b_target := 8589934602, b_length := 10\<rparr>)"
  by (simp add: wide_branch_def Branch_adjust_length_def Branch_arg_def bindE_def
                offset2branch_def python_3_11_version arg_ext_needed_def bit_length_def Let_def)

lemma wide_branch_code:
  "Branch_code python_3_11 (wide_branch\<lparr>b_target := 8589934602, b_length := 10\<rparr>)
   = Inl AssertionError"
  by (simp add: wide_branch_def Branch_code_def Branch_arg_def bindE_def offset2branch_def
                python_3_11_version arg_ext_needed_def bit_length_def opcode_arg_def Let_def)

lemma wide_branch_fields:
  "b_offset wide_branch = 0" "b_opcode wide_branch = 110" "b_length wide_branch = 2"
  by (simp_all add: wide_branch_def)

lemma wide_scan_1:
  "finish_scan python_3_11 wide_editor 0 False
   = Inr (True, wide_editor
           \<lparr>patch := [0, 0, 0, 0, 0, 0, 0, 0, 110, 0],
            branches := [wide_branch\<lparr>b_target := 8589934602, b_length := 10\<rparr>]\<rparr>)"
proof -
  have "finish_scan python_3_11 wide_editor 0 False
        = finish_scan python_3_11 (wide_editor
           \<lparr>patch := [0, 0, 0, 0, 0, 0, 0, 0, 110, 0],
            branches := [wide_branch\<lparr>b_target := 8589934602, b_length := 10\<rparr>]\<rparr>) (Suc 0) True"
    by (subst finish_scan.simps)
       (simp add: wide_editor_def wide_branch_grows wide_branch_fields set_slice_def
                  slice_index_def is_byte_def adjust_others_def Let_def numeral_eq_Suc)
  also have "\<dots> = Inr (True, wide_editor
           \<lparr>patch := [0, 0, 0, 0, 0, 0, 0, 0, 110, 0],
            branches := [wide_branch\<lparr>b_target := 8589934602, b_length := 10\<rparr>]\<rparr>)"
    by (rule finish_scan_done) (simp add: wide_editor_def)
  finally show ?thesis .
qed

lemma wide_scan_2:
  "finish_scan python_3_11 (wide_editor
           \<lparr>patch := [0, 0, 0, 0, 0, 0, 0, 0, 110, 0],
            branches := [wide_branch\<lparr>b_target := 8589934602, b_length := 10\<rparr>]\<rparr>) 0 False
   = Inr (False, wide_editor
           \<lparr>patch := [0, 0, 0, 0, 0, 0, 0, 0, 110, 0],
            branches := [wide_branch\<lparr>b_target := 8589934602, b_length := 10\<rparr>]\<rparr>)"
proof -
  let ?ed = "wide_editor
           \<lparr>patch := [0, 0, 0, 0, 0, 0, 0, 0, 110, 0],
            branches := [wide_branch\<lparr>b_target := 8589934602, b_length := 10\<rparr>]\<rparr>"
  have "finish_scan python_3_11 ?ed 0 False = finish_scan python_3_11 ?ed (Suc 0) False"
    by (subst finish_scan.simps) (simp add: wide_editor_def wide_branch_grown)
  also have "\<dots> = Inr (False, ?ed)"
    by (rule finish_scan_done) (simp add: wide_editor_def)
  finally show ?thesis .
qed

text \<open>
  Claim C7 as stated bounds every length in the loop by 8 bytes, three operand prefixes.
  The loop has no such bound: it grows the branch of \<open>wide_editor\<close> from 2 to 10 bytes
  and ends there. The limit of three prefixes is asserted by \<^verbatim>\<open>opcode_arg\<close> after the
  loop, where \<^verbatim>\<open>finish\<close> then fails.
\<close>

theorem finish_loop_exceeds_eight_bytes:
  "finish_loop python_3_11 wide_editor
   = Some (Inr (wide_editor
           \<lparr>patch := [0, 0, 0, 0, 0, 0, 0, 0, 110, 0],
            branches := [wide_branch\<lparr>b_target := 8589934602, b_length := 10\<rparr>]\<rparr>))
   \<and> map b_length (branches wide_editor) = [2]
   \<and> b_length (wide_branch\<lparr>b_target := 8589934602, b_length := 10\<rparr>) = 10
   \<and> Editor_finish python_3_11 wide_editor
     = Some (Inl AssertionError,
             wide_editor
               \<lparr>patch := [0, 0, 0, 0, 0, 0, 0, 0, 110, 0],
                branches := [wide_branch\<lparr>b_target := 8589934602, b_length := 10\<rparr>]\<rparr>)"
proof -
  let ?ed = "wide_editor
           \<lparr>patch := [0, 0, 0, 0, 0, 0, 0, 0, 110, 0],
            branches := [wide_branch\<lparr>b_target := 8589934602, b_length := 10\<rparr>]\<rparr>"
  have "finish_loop python_3_11 ?ed = Some (Inr ?ed)"
    by (subst finish_loop.simps) (simp add: wide_scan_2)
  then have loop: "finish_loop python_3_11 wide_editor = Some (Inr ?ed)"
    by (subst finish_loop.simps) (simp add: wide_scan_1)
  have emit: "finish_emit python_3_11 [0, 0, 0, 0, 0, 0, 0, 0, 110, 0]
                [wide_branch\<lparr>b_target := 8589934602, b_length := 10\<rparr>]
              = Inl (AssertionError, [0, 0, 0, 0, 0, 0, 0, 0, 110, 0])"
    by (simp add: bindE_def get_item_def item_index_def wide_branch_code wide_branch_fields)
  have nf: "\<not> finished wide_editor" by (simp add: wide_editor_def)
  have "Editor_finish python_3_11 wide_editor = Some (Inl AssertionError, ?ed)"
    by (simp add: Editor_finish_def loop emit nf del: finish_emit.simps)
  moreover have "map b_length (branches wide_editor) = [2]"
    by (simp add: wide_editor_def wide_branch_fields)
  ultimately show ?thesis using loop by simp
qed

end
